theory Spec2Isabelle
  imports Main
begin

section \<open>Library functions of Go used by gofmtcomment.go\<close>

text \<open>
  Go strings are byte sequences, modelled as \<^typ>\<open>string\<close>.  The functions of this
  section are those of the packages \<^verbatim>\<open>strings\<close> and \<^verbatim>\<open>strconv\<close> that the program
  calls, written after their documentation.
\<close>

abbreviation newline :: char where
  "newline \<equiv> CHR 0x0A"

abbreviation dquote :: char where
  "dquote \<equiv> CHR 0x22"

abbreviation backquote :: char where
  "backquote \<equiv> CHR 0x60"

abbreviation squote :: char where
  "squote \<equiv> CHR 0x27"

definition HasPrefix :: "string \<Rightarrow> string \<Rightarrow> bool" where
  "HasPrefix s p \<longleftrightarrow> take (length p) s = p"

definition HasSuffix :: "string \<Rightarrow> string \<Rightarrow> bool" where
  "HasSuffix s p \<longleftrightarrow> length p \<le> length s \<and> drop (length s - length p) s = p"

text \<open>\<^verbatim>\<open>strings.Contains(s, substr)\<close>: \<open>substr\<close> occurs somewhere in \<open>s\<close>.\<close>

fun Contains :: "string \<Rightarrow> string \<Rightarrow> bool" where
  "Contains [] sub = (sub = [])"
| "Contains (c # cs) sub = (HasPrefix (c # cs) sub \<or> Contains cs sub)"

text \<open>
  \<^verbatim>\<open>strings.Split(s, sep)\<close> for a separator of one byte, which is the only way the
  program calls it (\<^verbatim>\<open>strings.Split(str, "\n")\<close>): the pieces between the
  separators, one more than there are separators.
\<close>

fun Split :: "string \<Rightarrow> char \<Rightarrow> string list" where
  "Split [] sep = [[]]"
| "Split (c # cs) sep =
     (if c = sep then [] # Split cs sep
      else (case Split cs sep of
              [] \<Rightarrow> [[c]]
            | l # ls \<Rightarrow> (c # l) # ls))"

text \<open>\<^verbatim>\<open>strings.Join(elems, sep)\<close>.\<close>

fun Join :: "string list \<Rightarrow> string \<Rightarrow> string" where
  "Join [] sep = []"
| "Join [x] sep = x"
| "Join (x # y # ys) sep = x @ sep @ Join (y # ys) sep"

text \<open>\<^verbatim>\<open>strings.Trim(s, cutset)\<close>: all leading and trailing bytes of \<open>cutset\<close> removed.\<close>

definition Trim :: "string \<Rightarrow> string \<Rightarrow> string" where
  "Trim s cutset =
     rev (dropWhile (\<lambda>c. c \<in> set cutset) (rev (dropWhile (\<lambda>c. c \<in> set cutset) s)))"

definition isDigit :: "char \<Rightarrow> bool" where
  "isDigit c \<longleftrightarrow> c \<in> set ''0123456789''"

definition digitVal :: "char \<Rightarrow> int" where
  "digitVal c = int (of_char c) - 48"

definition digitsVal :: "string \<Rightarrow> int" where
  "digitsVal ds = foldl (\<lambda>n ch. n * 10 + digitVal ch) 0 ds"

text \<open>
  \<^verbatim>\<open>strconv.Atoi(s)\<close> where \<^verbatim>\<open>int\<close> has 64 bits: an optional sign, then one or
  more decimal digits; a syntax error or a value outside the range of \<^verbatim>\<open>int\<close> is an
  error, here \<open>None\<close>.
\<close>

definition Atoi :: "string \<Rightarrow> int option" where
  "Atoi s =
     (let neg = (s \<noteq> [] \<and> hd s = CHR ''-'');
          ds = (if s \<noteq> [] \<and> (hd s = CHR ''-'' \<or> hd s = CHR ''+'') then tl s else s)
      in if ds = [] \<or> \<not> list_all isDigit ds then None
         else if neg then (if digitsVal ds > 2 ^ 63 then None else Some (- digitsVal ds))
         else (if digitsVal ds \<ge> 2 ^ 63 then None else Some (digitsVal ds)))"

section \<open>The syntax tree and the values of the table\<close>

text \<open>
  The node kinds of \<^verbatim>\<open>go/ast\<close> that \<^verbatim>\<open>extractConstants\<close> and \<^verbatim>\<open>extractValue\<close>
  tell apart, and a few of the others by name; \<open>OtherNode\<close> is any further kind of
  node, with its children in the order \<^verbatim>\<open>ast.Walk\<close> visits them.
\<close>

datatype token =
    token_IMPORT | token_CONST | token_TYPE | token_VAR
  | token_INT | token_FLOAT | token_IMAG | token_CHAR | token_STRING

datatype node =
    File "node list"
  | GenDecl token "node list"
  | FuncDecl string node
  | BlockStmt "node list"
  | DeclStmt node
  | ValueSpec "string list" "node option" "node list"
  | BasicLit token string
  | Ident string
  | CallExpr node "node list"
  | BinaryExpr node string node
  | CompositeLit "node option" "node list"
  | OtherNode "node list"

text \<open>
  The \<^verbatim>\<open>interface{}\<close> values stored in the table: \<^verbatim>\<open>int\<close>, \<^verbatim>\<open>string\<close>,
  \<^verbatim>\<open>float64\<close> and \<^verbatim>\<open>bool\<close>.  Floating-point numbers are a type parameter \<open>'f\<close>.
\<close>

datatype 'f go_value = IntVal int | StringVal string | FloatVal 'f | BoolVal bool

datatype error = Panic string | Error string

text \<open>
  What the program takes from outside: \<^verbatim>\<open>strconv.ParseFloat(s, 64)\<close>, the text
  \<^verbatim>\<open>fmt.Sprintf("%v", f)\<close> prints for a \<^verbatim>\<open>float64\<close>, and \<^verbatim>\<open>parser.ParseFile\<close>
  on the content of a file.
\<close>

record 'f golib =
  ParseFloat :: "string \<Rightarrow> 'f option"
  FormatFloat :: "'f \<Rightarrow> string"
  ParseFile :: "string \<Rightarrow> error + node"

datatype pattern = Pattern (opener: string) (closer: string)

record 'f SwaggerVariableReplacer =
  constants :: "string \<rightharpoonup> 'f go_value"
  patterns :: "pattern list"

text \<open>
  \<^verbatim>\<open>NewSwaggerVariableReplacer\<close>.  Each of the three regular expressions is a literal
  opening text, the group \<^verbatim>\<open>([A-Za-z_][A-Za-z0-9_]*)\<close> and a literal closing text:
  \<^verbatim>\<open>\{\{(...)\}\}\<close>, \<^verbatim>\<open>\$\{(...)\}\<close> and \<^verbatim>\<open>@VAR\((...)\)\<close>.
\<close>

definition NewSwaggerVariableReplacer :: "'f SwaggerVariableReplacer" where
  "NewSwaggerVariableReplacer =
     \<lparr>constants = Map.empty,
      patterns = [Pattern ''{{'' ''}}'', Pattern ''${'' ''}'', Pattern ''@VAR('' '')'']\<rparr>"

section \<open>extractValue and extractConstants\<close>

text \<open>
  The loop of \<^verbatim>\<open>extractValue\<close> that puts \<^verbatim>\<open>"// "\<close> before every line but the first.
\<close>

function commentLoop :: "nat \<Rightarrow> string list \<Rightarrow> string list" where
  "commentLoop i lines =
     (if i < length lines then commentLoop (Suc i) (lines[i := ''// '' @ lines ! i])
      else lines)"
  by pat_completeness auto
termination
  by (relation "measure (\<lambda>(i, lines). length lines - i)") auto

declare commentLoop.simps [simp del]

text \<open>
  \<^verbatim>\<open>extractValue\<close>: \<open>Inr (Some v)\<close> is the value returned, \<open>Inr None\<close> is \<^verbatim>\<open>nil\<close>.
  \<^verbatim>\<open>x.Value[0]\<close> panics on an empty \<^verbatim>\<open>Value\<close>.
\<close>

fun extractValue :: "'f golib \<Rightarrow> node \<Rightarrow> error + 'f go_value option" where
  "extractValue L (BasicLit kind v) =
     (if kind = token_INT then
        (case Atoi v of Some n \<Rightarrow> Inr (Some (IntVal n)) | None \<Rightarrow> Inr None)
      else if kind = token_STRING then
        (if v = [] then Inl (Panic ''index out of range'')
         else
           let str = (if hd v = dquote then Trim v [dquote] else Trim v [backquote]);
               str' = (if Contains str [newline]
                       then Join (commentLoop 1 (Split str newline)) [newline]
                       else str)
           in Inr (Some (StringVal str')))
      else if kind = token_FLOAT then
        (case ParseFloat L v of Some f \<Rightarrow> Inr (Some (FloatVal f)) | None \<Rightarrow> Inr None)
      else Inr None)"
| "extractValue L (Ident name) =
     (if name = ''true'' then Inr (Some (BoolVal True))
      else if name = ''false'' then Inr (Some (BoolVal False))
      else Inr None)"
| "extractValue L _ = Inr None"

text \<open>
  The body of the loops over \<^verbatim>\<open>valueSpec.Names\<close> (lines 95 to 103 and 110 to 118),
  and the loops.
\<close>

definition bindName ::
  "'f golib \<Rightarrow> 'f SwaggerVariableReplacer \<Rightarrow> nat \<Rightarrow> string \<Rightarrow> node list
    \<Rightarrow> error + 'f SwaggerVariableReplacer" where
  "bindName L r i name vals =
     (if i < length vals then
        (case extractValue L (vals ! i) of
           Inl e \<Rightarrow> Inl e
         | Inr None \<Rightarrow> Inr r
         | Inr (Some v) \<Rightarrow> Inr (r\<lparr>constants := (constants r)(name \<mapsto> v)\<rparr>))
      else Inr r)"

fun namesLoop ::
  "'f golib \<Rightarrow> 'f SwaggerVariableReplacer \<Rightarrow> nat \<Rightarrow> string list \<Rightarrow> node list
    \<Rightarrow> error + 'f SwaggerVariableReplacer" where
  "namesLoop L r i [] vals = Inr r"
| "namesLoop L r i (name # names) vals =
     (case bindName L r i name vals of
        Inl e \<Rightarrow> Inl e
      | Inr r' \<Rightarrow> namesLoop L r' (Suc i) names vals)"

fun specsLoop ::
  "'f golib \<Rightarrow> 'f SwaggerVariableReplacer \<Rightarrow> node list
    \<Rightarrow> error + 'f SwaggerVariableReplacer" where
  "specsLoop L r [] = Inr r"
| "specsLoop L r (spec # specs) =
     (case (case spec of
              ValueSpec names ty vals \<Rightarrow> namesLoop L r 0 names vals
            | _ \<Rightarrow> Inr r) of
        Inl e \<Rightarrow> Inl e
      | Inr r' \<Rightarrow> specsLoop L r' specs)"

text \<open>The function literal that \<^verbatim>\<open>extractConstants\<close> passes to \<^verbatim>\<open>ast.Inspect\<close>.\<close>

definition visit ::
  "'f golib \<Rightarrow> node \<Rightarrow> 'f SwaggerVariableReplacer \<Rightarrow> error + 'f SwaggerVariableReplacer" where
  "visit L n r =
     (case n of
        GenDecl tok specs \<Rightarrow> if tok = token_CONST then specsLoop L r specs else Inr r
      | ValueSpec names ty vals \<Rightarrow> if ty = None then namesLoop L r 0 names vals else Inr r
      | _ \<Rightarrow> Inr r)"

text \<open>
  The children of a node in the order \<^verbatim>\<open>ast.Walk\<close> visits them.  The names of a
  \<^verbatim>\<open>ValueSpec\<close> are identifiers, which are leaves.
\<close>

fun children :: "node \<Rightarrow> node list" where
  "children (File decls) = decls"
| "children (GenDecl tok specs) = specs"
| "children (FuncDecl name body) = [Ident name, body]"
| "children (BlockStmt stmts) = stmts"
| "children (DeclStmt d) = [d]"
| "children (ValueSpec names ty vals) =
     map Ident names @ (case ty of None \<Rightarrow> [] | Some t \<Rightarrow> [t]) @ vals"
| "children (BasicLit kind v) = []"
| "children (Ident name) = []"
| "children (CallExpr f args) = f # args"
| "children (BinaryExpr x op y) = [x, y]"
| "children (CompositeLit ty elts) = (case ty of None \<Rightarrow> [] | Some t \<Rightarrow> [t]) @ elts"
| "children (OtherNode ns) = ns"

text \<open>
  \<^verbatim>\<open>ast.Inspect(node, f)\<close> with a function \<open>f\<close> that always returns \<^verbatim>\<open>true\<close>:
  \<open>f\<close> is called on the node, then the children are traversed in order.  (The
  closing call \<^verbatim>\<open>f(nil)\<close> matches no case of the type switch.)  A panic of \<open>f\<close>
  ends the traversal.
\<close>

fun weight :: "node \<Rightarrow> nat" where
  "weight (File decls) = Suc (sum_list (map weight decls))"
| "weight (GenDecl tok specs) = Suc (sum_list (map weight specs))"
| "weight (FuncDecl name body) = Suc (Suc (weight body))"
| "weight (BlockStmt stmts) = Suc (sum_list (map weight stmts))"
| "weight (DeclStmt d) = Suc (weight d)"
| "weight (ValueSpec names ty vals) =
     Suc (length names + (case ty of None \<Rightarrow> 0 | Some t \<Rightarrow> weight t)
          + sum_list (map weight vals))"
| "weight (BasicLit kind v) = 1"
| "weight (Ident name) = 1"
| "weight (CallExpr f args) = Suc (weight f + sum_list (map weight args))"
| "weight (BinaryExpr x op y) = Suc (weight x + weight y)"
| "weight (CompositeLit ty elts) =
     Suc ((case ty of None \<Rightarrow> 0 | Some t \<Rightarrow> weight t) + sum_list (map weight elts))"
| "weight (OtherNode ns) = Suc (sum_list (map weight ns))"

lemma weight_pos: "0 < weight n"
  by (cases n) simp_all

lemma weight_children: "sum_list (map weight (children n)) < weight n"
  by (cases n) (simp_all add: comp_def sum_list_triv split: option.splits)

lemma weight_children_twice: "Suc (2 * sum_list (map weight (children n))) < 2 * weight n"
  using weight_children [of n] by arith

function Inspect :: "(node \<Rightarrow> 's \<Rightarrow> error + 's) \<Rightarrow> node \<Rightarrow> 's \<Rightarrow> error + 's"
  and InspectList :: "(node \<Rightarrow> 's \<Rightarrow> error + 's) \<Rightarrow> node list \<Rightarrow> 's \<Rightarrow> error + 's" where
  "Inspect f n s =
     (case f n s of
        Inl e \<Rightarrow> Inl e
      | Inr s' \<Rightarrow> InspectList f (children n) s')"
| "InspectList f [] s = Inr s"
| "InspectList f (n # ns) s =
     (case Inspect f n s of
        Inl e \<Rightarrow> Inl e
      | Inr s' \<Rightarrow> InspectList f ns s')"
  by pat_completeness auto
termination
  by (relation "measure (\<lambda>x. case x of
          Inl (f, n, s) \<Rightarrow> 2 * weight n
        | Inr (f, ns, s) \<Rightarrow> 2 * sum_list (map weight ns) + 1)")
     (auto simp: weight_children_twice weight_pos)

text \<open>The traversal of \<^verbatim>\<open>extractConstants\<close>, on a tree already parsed.\<close>

definition extractNode ::
  "'f golib \<Rightarrow> node \<Rightarrow> 'f SwaggerVariableReplacer \<Rightarrow> error + 'f SwaggerVariableReplacer" where
  "extractNode L n r = Inspect (visit L) n r"

section \<open>The placeholder patterns\<close>

definition isIdentStart :: "char \<Rightarrow> bool" where
  "isIdentStart c \<longleftrightarrow>
     c \<in> set ''ABCDEFGHIJKLMNOPQRSTUVWXYZabcdefghijklmnopqrstuvwxyz_''"

definition isIdentChar :: "char \<Rightarrow> bool" where
  "isIdentChar c \<longleftrightarrow> isIdentStart c \<or> isDigit c"

text \<open>
  A match of a pattern at the start of \<open>s\<close>: the matched text, the text of the group
  and what follows the match.  The opening text is followed by a byte of
  \<^verbatim>\<open>[A-Za-z_]\<close> and the longest run of \<^verbatim>\<open>[A-Za-z0-9_]\<close> (the star is greedy), then
  the closing text; since the closing texts start with a byte outside the class, a
  shorter run is never followed by the closing text.
\<close>

definition matchAt :: "pattern \<Rightarrow> string \<Rightarrow> (string \<times> string \<times> string) option" where
  "matchAt p s =
     (if HasPrefix s (opener p) then
        let r = drop (length (opener p)) s;
            name = takeWhile isIdentChar r;
            r' = dropWhile isIdentChar r
        in if name \<noteq> [] \<and> isIdentStart (hd name) \<and> HasPrefix r' (closer p)
           then Some (opener p @ name @ closer p, name, drop (length (closer p)) r')
           else None
      else None)"

text \<open>
  \<^verbatim>\<open>FindStringSubmatch\<close>: the leftmost match and its group, or \<^verbatim>\<open>nil\<close> (the empty
  list).
\<close>

fun FindStringSubmatch :: "pattern \<Rightarrow> string \<Rightarrow> string list" where
  "FindStringSubmatch p [] =
     (case matchAt p [] of Some (m, name, rest) \<Rightarrow> [m, name] | None \<Rightarrow> [])"
| "FindStringSubmatch p (c # cs) =
     (case matchAt p (c # cs) of
        Some (m, name, rest) \<Rightarrow> [m, name]
      | None \<Rightarrow> FindStringSubmatch p cs)"

lemma matchAt_shorter:
  assumes "matchAt p s = Some (m, name, rest)"
  shows "length rest < length s"
proof -
  let ?r = "drop (length (opener p)) s"
  from assms have n: "takeWhile isIdentChar ?r \<noteq> []"
    and r: "rest = drop (length (closer p)) (dropWhile isIdentChar ?r)"
    by (simp_all add: matchAt_def Let_def split: if_splits)
  have "length (takeWhile isIdentChar ?r) + length (dropWhile isIdentChar ?r) = length ?r"
    by (metis length_append takeWhile_dropWhile_id)
  with n have "length (dropWhile isIdentChar ?r) < length ?r"
    by (cases "takeWhile isIdentChar ?r") simp_all
  with r show ?thesis by simp
qed

text \<open>
  \<^verbatim>\<open>ReplaceAllStringFunc\<close>: the matches are found from left to right, each search
  starting where the last match ended, and each is replaced by what \<open>repl\<close> returns
  for it.  \<open>repl\<close> also prints: the second component is what was printed, in order.
\<close>

function ReplaceAllStringFunc ::
  "pattern \<Rightarrow> (string \<Rightarrow> string \<times> string list) \<Rightarrow> string \<Rightarrow> string \<times> string list" where
  "ReplaceAllStringFunc p repl s =
     (case matchAt p s of
        Some (m, name, rest) \<Rightarrow>
          (case repl m of
             (new, printed) \<Rightarrow>
               (case ReplaceAllStringFunc p repl rest of
                  (after, printed') \<Rightarrow> (new @ after, printed @ printed')))
      | None \<Rightarrow>
          (case s of
             [] \<Rightarrow> ([], [])
           | c # cs \<Rightarrow>
               (case ReplaceAllStringFunc p repl cs of
                  (after, printed) \<Rightarrow> (c # after, printed))))"
  by pat_completeness auto
termination
  by (relation "measure (\<lambda>(p, repl, s). length s)") (auto simp: matchAt_shorter)

declare ReplaceAllStringFunc.simps [simp del]

section \<open>processCommentLine and replaceVariablesInComments\<close>

definition digitChar :: "nat \<Rightarrow> char" where
  "digitChar n = char_of (48 + n)"

function showNat :: "nat \<Rightarrow> string" where
  "showNat n = (if n < 10 then [digitChar n] else showNat (n div 10) @ [digitChar (n mod 10)])"
  by pat_completeness auto
termination
  by (relation "measure (\<lambda>n. n)") auto

definition showInt :: "int \<Rightarrow> string" where
  "showInt i = (if i < 0 then CHR ''-'' # showNat (nat (- i)) else showNat (nat i))"

text \<open>\<^verbatim>\<open>fmt.Sprintf("%v", value)\<close> for the values of the table.\<close>

fun Sprintf_v :: "'f golib \<Rightarrow> 'f go_value \<Rightarrow> string" where
  "Sprintf_v L (IntVal i) = showInt i"
| "Sprintf_v L (StringVal s) = s"
| "Sprintf_v L (FloatVal f) = FormatFloat L f"
| "Sprintf_v L (BoolVal b) = (if b then ''true'' else ''false'')"

definition warning :: "string \<Rightarrow> string" where
  "warning varName = ''Warning: Variable '' @ [squote] @ varName @ [squote] @ '' not found'' @ [newline]"

text \<open>
  The function literal of \<^verbatim>\<open>processCommentLine\<close>: the replacement of a match, and
  what it prints.
\<close>

definition replaceFunc ::
  "'f golib \<Rightarrow> 'f SwaggerVariableReplacer \<Rightarrow> pattern \<Rightarrow> string \<Rightarrow> string \<times> string list" where
  "replaceFunc L r pat match =
     (let submatches = FindStringSubmatch pat match in
      if length submatches > 1 then
        (let varName = submatches ! 1 in
         case constants r varName of
           Some v \<Rightarrow>
             (case v of
                StringVal strVal \<Rightarrow> (strVal, [])
              | _ \<Rightarrow> (Sprintf_v L v, []))
         | None \<Rightarrow> (match, [warning varName]))
      else (match, []))"

fun patternsLoop ::
  "'f golib \<Rightarrow> 'f SwaggerVariableReplacer \<Rightarrow> pattern list \<Rightarrow> string \<Rightarrow> string \<times> string list" where
  "patternsLoop L r [] result = (result, [])"
| "patternsLoop L r (pat # pats) result =
     (case ReplaceAllStringFunc pat (replaceFunc L r pat) result of
        (result', printed) \<Rightarrow>
          (case patternsLoop L r pats result' of
             (result'', printed') \<Rightarrow> (result'', printed @ printed')))"

definition processCommentLine ::
  "'f golib \<Rightarrow> 'f SwaggerVariableReplacer \<Rightarrow> string \<Rightarrow> string \<times> string list" where
  "processCommentLine L r line = patternsLoop L r (patterns r) line"

text \<open>
  The file system and the standard output.  \<open>written\<close> lists the calls of
  \<^verbatim>\<open>os.WriteFile\<close> that succeeded; a file of \<open>readonly\<close> cannot be written;
  \<open>tree dir\<close> is what \<^verbatim>\<open>filepath.Walk(dir, fn)\<close> passes to \<open>fn\<close>, in order.
\<close>

record world =
  files :: "string \<rightharpoonup> string"
  readonly :: "string set"
  tree :: "string \<Rightarrow> (string \<times> error option) list"
  written :: "(string \<times> string) list"
  stdout :: "string list"

definition Printf :: "string \<Rightarrow> world \<Rightarrow> world" where
  "Printf msg w = w\<lparr>stdout := stdout w @ [msg]\<rparr>"

definition ReadFile :: "world \<Rightarrow> string \<Rightarrow> error + string" where
  "ReadFile w filename =
     (case files w filename of
        None \<Rightarrow> Inl (Error (''open '' @ filename @ '': no such file or directory''))
      | Some content \<Rightarrow> Inr content)"

definition WriteFile :: "world \<Rightarrow> string \<Rightarrow> string \<Rightarrow> error + world" where
  "WriteFile w filename content =
     (if filename \<in> readonly w
      then Inl (Error (''open '' @ filename @ '': permission denied''))
      else Inr (w\<lparr>files := (files w)(filename \<mapsto> content),
                  written := written w @ [(filename, content)]\<rparr>))"

text \<open>
  The loop over the lines of \<^verbatim>\<open>replaceVariablesInComments\<close>: the lines, the flag
  \<^verbatim>\<open>modified\<close> and what was printed.
\<close>

function linesLoop ::
  "'f golib \<Rightarrow> 'f SwaggerVariableReplacer \<Rightarrow> nat \<Rightarrow> string list \<Rightarrow> bool \<Rightarrow> string list
    \<Rightarrow> string list \<times> bool \<times> string list" where
  "linesLoop L r i lines modified out =
     (if i < length lines then
        (let line = lines ! i in
         if Contains line ''//'' then
           (case processCommentLine L r line of
              (newLine, printed) \<Rightarrow>
                if newLine \<noteq> line
                then linesLoop L r (Suc i) (lines[i := newLine]) True
                       (out @ printed @
                          [''Replaced: '' @ line @ [newline],
                           ''    With: '' @ newLine @ [newline]])
                else linesLoop L r (Suc i) lines modified (out @ printed))
         else linesLoop L r (Suc i) lines modified out)
      else (lines, modified, out))"
  by pat_completeness auto
termination
  by (relation "measure (\<lambda>(L, r, i, lines, modified, out). length lines - i)") auto

declare linesLoop.simps [simp del]

definition replaceVariablesInComments ::
  "'f golib \<Rightarrow> 'f SwaggerVariableReplacer \<Rightarrow> world \<Rightarrow> string \<Rightarrow> error + world" where
  "replaceVariablesInComments L r w filename =
     (case ReadFile w filename of
        Inl e \<Rightarrow> Inl e
      | Inr content \<Rightarrow>
          (case linesLoop L r 0 (Split content newline) False [] of
             (lines, modified, printed) \<Rightarrow>
               (let w' = w\<lparr>stdout := stdout w @ printed\<rparr>
                in if modified
                   then WriteFile w' filename (Join lines [newline])
                   else Inr w')))"

definition extractConstants ::
  "'f golib \<Rightarrow> 'f SwaggerVariableReplacer \<Rightarrow> world \<Rightarrow> string
    \<Rightarrow> error + 'f SwaggerVariableReplacer" where
  "extractConstants L r w filename =
     (case ReadFile w filename of
        Inl e \<Rightarrow> Inl e
      | Inr content \<Rightarrow>
          (case ParseFile L content of
             Inl e \<Rightarrow> Inl e
           | Inr n \<Rightarrow> extractNode L n r))"

section \<open>ProcessFile and ProcessDirectory\<close>

text \<open>
  \<^verbatim>\<open>filepath.Walk\<close>: \<open>fn\<close> is called on every entry in order; the first error it
  returns ends the walk and is the result.
\<close>

fun Walk ::
  "(string \<times> error option) list \<Rightarrow> (string \<Rightarrow> error option \<Rightarrow> 's \<Rightarrow> error + 's) \<Rightarrow> 's
    \<Rightarrow> error + 's" where
  "Walk [] fn s = Inr s"
| "Walk ((path, err) # entries) fn s =
     (case fn path err s of
        Inl e \<Rightarrow> Inl e
      | Inr s' \<Rightarrow> Walk entries fn s')"

definition eligible :: "string \<Rightarrow> bool" where
  "eligible path \<longleftrightarrow> HasSuffix path ''.go'' \<and> \<not> HasSuffix path ''_test.go''"

definition extractFn ::
  "'f golib \<Rightarrow> string \<Rightarrow> error option \<Rightarrow> 'f SwaggerVariableReplacer \<times> world
    \<Rightarrow> error + 'f SwaggerVariableReplacer \<times> world" where
  "extractFn L path err s =
     (case err of
        Some e \<Rightarrow> Inl e
      | None \<Rightarrow>
          if eligible path then
            (let w = Printf (''Processing: '' @ path @ [newline]) (snd s) in
             case extractConstants L (fst s) w path of
               Inl e \<Rightarrow> Inl e
             | Inr r' \<Rightarrow> Inr (r', w))
          else Inr s)"

definition replaceFn ::
  "'f golib \<Rightarrow> string \<Rightarrow> error option \<Rightarrow> 'f SwaggerVariableReplacer \<times> world
    \<Rightarrow> error + 'f SwaggerVariableReplacer \<times> world" where
  "replaceFn L path err s =
     (case err of
        Some e \<Rightarrow> Inl e
      | None \<Rightarrow>
          if eligible path then
            (let w = Printf (''Processing: '' @ path @ [newline]) (snd s) in
             case replaceVariablesInComments L (fst s) w path of
               Inl e \<Rightarrow> Inl e
             | Inr w' \<Rightarrow> Inr (fst s, w'))
          else Inr s)"

text \<open>\<^verbatim>\<open>fmt.Errorf\<close> with the text of the error; a panic is not an error value.\<close>

fun wrapError :: "string \<Rightarrow> error \<Rightarrow> error" where
  "wrapError msg (Error e) = Error (msg @ e)"
| "wrapError msg (Panic e) = Panic e"

definition ProcessDirectory ::
  "'f golib \<Rightarrow> 'f SwaggerVariableReplacer \<times> world \<Rightarrow> string
    \<Rightarrow> error + 'f SwaggerVariableReplacer \<times> world" where
  "ProcessDirectory L s dir =
     (case Walk (tree (snd s) dir) (extractFn L) s of
        Inl e \<Rightarrow> Inl (wrapError ''failed to extract constants: '' e)
      | Inr s' \<Rightarrow> Walk (tree (snd s') dir) (replaceFn L) s')"

definition ProcessFile ::
  "'f golib \<Rightarrow> 'f SwaggerVariableReplacer \<times> world \<Rightarrow> string
    \<Rightarrow> error + 'f SwaggerVariableReplacer \<times> world" where
  "ProcessFile L s filename =
     (case extractConstants L (fst s) (snd s) filename of
        Inl e \<Rightarrow> Inl (wrapError (''failed to extract constants from '' @ filename @ '': '') e)
      | Inr r' \<Rightarrow>
          (case replaceVariablesInComments L r' (snd s) filename of
             Inl e \<Rightarrow> Inl (wrapError (''failed to replace variables in '' @ filename @ '': '') e)
           | Inr w' \<Rightarrow> Inr (r', w')))"

section \<open>Notions of the specification\<close>

text \<open>
  An initializer that is not a literal: any expression but a basic literal and the
  identifiers \<^verbatim>\<open>true\<close> and \<^verbatim>\<open>false\<close>.
\<close>

definition nonLiteral :: "node \<Rightarrow> bool" where
  "nonLiteral e =
     (case e of
        BasicLit kind v \<Rightarrow> False
      | Ident name \<Rightarrow> name \<noteq> ''true'' \<and> name \<noteq> ''false''
      | _ \<Rightarrow> True)"

text \<open>
  The value of a numeral written in decimal digits: the digit at index \<open>i\<close> counts
  \<open>10\<close> to the power of the number of digits after it.
\<close>

definition decimalValue :: "string \<Rightarrow> int" where
  "decimalValue s = (\<Sum>i<length s. digitVal (s ! i) * 10 ^ (length s - 1 - i))"

text \<open>
  The names of the placeholders of a pattern in a line: the group of every match of the
  pattern at any position of the line.  A line has no bound placeholder when no such
  name, for any pattern of the replacer, has an entry in the table.
\<close>

fun placeholderNames :: "pattern \<Rightarrow> string \<Rightarrow> string list" where
  "placeholderNames p [] = []"
| "placeholderNames p (c # cs) =
     (case matchAt p (c # cs) of
        Some (m, name, rest) \<Rightarrow> name # placeholderNames p cs
      | None \<Rightarrow> placeholderNames p cs)"

definition noBoundPlaceholder :: "'f SwaggerVariableReplacer \<Rightarrow> string \<Rightarrow> bool" where
  "noBoundPlaceholder r line \<longleftrightarrow>
     (\<forall>p\<in>set (patterns r). \<forall>name\<in>set (placeholderNames p line). constants r name = None)"

text \<open>A file system with one file, nothing written and nothing printed yet.\<close>

definition oneFile :: "string \<Rightarrow> string \<Rightarrow> world" where
  "oneFile filename content =
     \<lparr>files = [filename \<mapsto> content], readonly = {}, tree = (\<lambda>dir. []),
      written = [], stdout = []\<rparr>"

text \<open>
  The text of a string literal between its quotes, as \<^verbatim>\<open>extractValue\<close> takes it: the
  quotes trimmed, no escape sequence decoded.
\<close>

definition unquoted :: "string \<Rightarrow> string" where
  "unquoted v = (if hd v = dquote then Trim v [dquote] else Trim v [backquote])"

text \<open>
  Two tables of which the second is the first with a map put before it, and a step on
  tables that takes such a pair to such a pair, failing on the one when it fails on the
  other: the steps of extraction are of this kind, since all they do is add entries.
\<close>

definition extends :: "(string \<rightharpoonup> 'f go_value) \<Rightarrow> 'f SwaggerVariableReplacer \<Rightarrow> 'f SwaggerVariableReplacer \<Rightarrow> bool" where
  "extends c0 r0 r1 \<longleftrightarrow> constants r1 = c0 ++ constants r0"

definition simulates ::
  "('f SwaggerVariableReplacer \<Rightarrow> error + 'f SwaggerVariableReplacer) \<Rightarrow> bool" where
  "simulates f \<longleftrightarrow>
     (\<forall>c0 r0 r1. extends c0 r0 r1 \<longrightarrow>
        (case f r0 of
           Inl e \<Rightarrow> f r1 = Inl e
         | Inr r0' \<Rightarrow> (\<exists>r1'. f r1 = Inr r1' \<and> extends c0 r0' r1')))"

text \<open>
  A directory of two files for the example of directory mode: the first file walked has
  the comment, the second the declaration.  The parser is given by its results on the
  two files.
\<close>

definition twoFiles :: world where
  "twoFiles =
     \<lparr>files = [''d/a.go'' \<mapsto> ''package d'' @ [newline] @ ''// code {{X}}'',
               ''d/b.go'' \<mapsto> ''package d'' @ [newline] @ ''const X = 200''],
      readonly = {},
      tree = (\<lambda>dir. if dir = ''d''
                     then [(''d'', None), (''d/a.go'', None), (''d/b.go'', None)] else []),
      written = [],
      stdout = []\<rparr>"

definition twoFilesLib :: "unit golib" where
  "twoFilesLib =
     \<lparr>ParseFloat = (\<lambda>s. None),
      FormatFloat = (\<lambda>f. []),
      ParseFile = (\<lambda>content.
        if content = ''package d'' @ [newline] @ ''const X = 200''
        then Inr (File [GenDecl token_CONST [ValueSpec [''X''] None [BasicLit token_INT ''200'']]])
        else if content = ''package d'' @ [newline] @ ''// code {{X}}''
        then Inr (File [])
        else Inl (Error ''syntax error''))\<rparr>"

text \<open>
  A name as the group \<^verbatim>\<open>[A-Za-z_][A-Za-z0-9_]*\<close> takes it, the text of the placeholder
  of a pattern for a name, and the three patterns of \<^verbatim>\<open>NewSwaggerVariableReplacer\<close>.
\<close>

definition isIdent :: "string \<Rightarrow> bool" where
  "isIdent name \<longleftrightarrow> name \<noteq> [] \<and> isIdentStart (hd name) \<and> (\<forall>c\<in>set name. isIdentChar c)"

definition placeholder :: "pattern \<Rightarrow> string \<Rightarrow> string" where
  "placeholder p name = opener p @ name @ closer p"

definition knownPatterns :: "pattern list" where
  "knownPatterns = [Pattern ''{{'' ''}}'', Pattern ''${'' ''}'', Pattern ''@VAR('' '')'']"

text \<open>
  The outside functions for the examples, none of which has a floating-point literal
  or parses a file.
\<close>

definition noLib :: "unit golib" where
  "noLib =
     \<lparr>ParseFloat = (\<lambda>s. None),
      FormatFloat = (\<lambda>f. []),
      ParseFile = (\<lambda>content. Inl (Error ''syntax error''))\<rparr>"

text \<open>
  The nodes of a tree in the order \<^verbatim>\<open>ast.Inspect\<close> reaches them, the calls of a
  function on a list of nodes in order, and the two kinds of node for which the function
  literal of \<^verbatim>\<open>extractConstants\<close> has a case.
\<close>

function preorder :: "node \<Rightarrow> node list" and preorderList :: "node list \<Rightarrow> node list" where
  "preorder n = n # preorderList (children n)"
| "preorderList [] = []"
| "preorderList (n # ns) = preorder n @ preorderList ns"
  by pat_completeness auto
termination
  by (relation "measure (\<lambda>x. case x of
          Inl n \<Rightarrow> 2 * weight n
        | Inr ns \<Rightarrow> 2 * sum_list (map weight ns) + 1)")
     (auto simp: weight_children_twice weight_pos)

fun visitAll :: "(node \<Rightarrow> 's \<Rightarrow> error + 's) \<Rightarrow> node list \<Rightarrow> 's \<Rightarrow> error + 's" where
  "visitAll f [] s = Inr s"
| "visitAll f (n # ns) s =
     (case f n s of
        Inl e \<Rightarrow> Inl e
      | Inr s' \<Rightarrow> visitAll f ns s')"

definition isDecl :: "node \<Rightarrow> bool" where
  "isDecl n = (case n of GenDecl tok specs \<Rightarrow> True | ValueSpec names ty vals \<Rightarrow> True | _ \<Rightarrow> False)"

text \<open>
  What the loop over the names of a specification binds: the pairs of the name at an
  index and the value of the initializer at the same index, for the indices that have
  an initializer which \<^verbatim>\<open>extractValue\<close> resolves, in order.  \<open>bindAll\<close> is the table
  overwritten with such pairs in order, a later pair of the same name winning.
\<close>

fun pairs :: "'f golib \<Rightarrow> (string \<times> node) list \<Rightarrow> (string \<times> 'f go_value) list" where
  "pairs L [] = []"
| "pairs L ((name, e) # xs) =
     (case extractValue L e of
        Inr (Some v) \<Rightarrow> (name, v) # pairs L xs
      | _ \<Rightarrow> pairs L xs)"

definition specPairs :: "'f golib \<Rightarrow> node \<Rightarrow> (string \<times> 'f go_value) list" where
  "specPairs L spec =
     (case spec of ValueSpec names ty vals \<Rightarrow> pairs L (zip names vals) | _ \<Rightarrow> [])"

text \<open>A specification without a declared type.\<close>

definition untyped :: "node \<Rightarrow> bool" where
  "untyped spec = (case spec of ValueSpec names ty vals \<Rightarrow> ty = None | _ \<Rightarrow> False)"

text \<open>
  A specification as the parser gives it for a declaration of constants or variables
  whose types and initializers hold no declaration of their own (no function literal
  with declarations in its body): no node below it is a \<^verbatim>\<open>GenDecl\<close> or a \<^verbatim>\<open>ValueSpec\<close>,
  and no string literal has an empty source text (the source text of a string literal
  has at least its quotes).
\<close>

definition plainSpec :: "node \<Rightarrow> bool" where
  "plainSpec spec \<longleftrightarrow>
     (case spec of
        ValueSpec names ty vals \<Rightarrow>
          BasicLit token_STRING [] \<notin> set vals
          \<and> (\<forall>m\<in>set (preorderList (children spec)). \<not> isDecl m)
      | _ \<Rightarrow> False)"

definition bindAll ::
  "'f SwaggerVariableReplacer \<Rightarrow> (string \<times> 'f go_value) list \<Rightarrow> 'f SwaggerVariableReplacer" where
  "bindAll r ps = r\<lparr>constants := constants r ++ map_of (rev ps)\<rparr>"

text \<open>
  A list of specifications binds \<open>k\<close> to \<open>v\<close> at some place: \<open>k\<close> is the name at an
  index \<open>i\<close> of one of the specifications, \<open>i\<close> is below the number of its initializers,
  and \<^verbatim>\<open>extractValue\<close> resolves the initializer at \<open>i\<close> to \<open>v\<close>.
\<close>

definition bound :: "'f golib \<Rightarrow> node list \<Rightarrow> string \<Rightarrow> 'f go_value \<Rightarrow> bool" where
  "bound L specs k v \<longleftrightarrow>
     (\<exists>names ty vals i. ValueSpec names ty vals \<in> set specs
        \<and> i < length names \<and> i < length vals \<and> names ! i = k
        \<and> extractValue L (vals ! i) = Inr (Some v))"

text \<open>
  A neutral byte is one that no placeholder contains: not a letter, a digit or \<^verbatim>\<open>_\<close>,
  and none of \<^verbatim>\<open>{ } $ @ ( )\<close>.  The table has plain values when the text put in for a
  value holds no placeholder of a bound name.  In a line the placeholders of bound names
  are set off when each of them has the start of the line or a neutral byte directly
  before it, and the end of the line or a neutral byte directly after it; \<open>setOffFrom\<close>
  goes through the line from left to right, its flag saying whether what stands before
  is the start of the line or a neutral byte.
\<close>

definition neutral :: "char \<Rightarrow> bool" where
  "neutral c \<longleftrightarrow> \<not> isIdentChar c \<and> c \<notin> set ''{}$@()''"

definition plainValues :: "'f golib \<Rightarrow> 'f SwaggerVariableReplacer \<Rightarrow> bool" where
  "plainValues L r \<longleftrightarrow>
     (\<forall>name v. constants r name = Some v \<longrightarrow> noBoundPlaceholder r (Sprintf_v L v))"

fun setOffFrom :: "'f SwaggerVariableReplacer \<Rightarrow> bool \<Rightarrow> string \<Rightarrow> bool" where
  "setOffFrom r b [] = True"
| "setOffFrom r b (c # cs) =
     ((\<forall>p\<in>set (patterns r).
         case matchAt p (c # cs) of
           None \<Rightarrow> True
         | Some (m, name, rest) \<Rightarrow>
             (case constants r name of
                None \<Rightarrow> True
              | Some v \<Rightarrow> b \<and> (rest = [] \<or> neutral (hd rest))))
      \<and> setOffFrom r (neutral c) cs)"

definition setOff :: "'f SwaggerVariableReplacer \<Rightarrow> string \<Rightarrow> bool" where
  "setOff r line = setOffFrom r True line"

text \<open>
  A line cut into stretches of text and placeholders.  The cut is separated when no
  stretch of text holds a placeholder of a bound name, every placeholder is one of a
  pattern of the replacer, and at every seam between two neighbours one of the two
  bytes at the seam is neutral.  \<open>resolve\<close> is what the pass of a pattern does to a
  piece: a placeholder of the pattern with a bound name becomes the text of the value.
\<close>

datatype item = Text string | Hole pattern string

fun render :: "item list \<Rightarrow> string" where
  "render [] = []"
| "render (Text t # xs) = t @ render xs"
| "render (Hole q name # xs) = placeholder q name @ render xs"

fun validItem :: "'f SwaggerVariableReplacer \<Rightarrow> item \<Rightarrow> bool" where
  "validItem r (Text t) = noBoundPlaceholder r t"
| "validItem r (Hole q name) = (q \<in> set (patterns r) \<and> isIdent name)"

fun endsNeutral :: "item \<Rightarrow> bool" where
  "endsNeutral (Text t) = (t \<noteq> [] \<and> neutral (last t))"
| "endsNeutral (Hole q name) = False"

fun startsNeutral :: "item \<Rightarrow> bool" where
  "startsNeutral (Text t) = (t \<noteq> [] \<and> neutral (hd t))"
| "startsNeutral (Hole q name) = False"

fun seams :: "item list \<Rightarrow> bool" where
  "seams [] = True"
| "seams [x] = True"
| "seams (x # y # xs) = ((endsNeutral x \<or> startsNeutral y) \<and> seams (y # xs))"

definition separated :: "'f SwaggerVariableReplacer \<Rightarrow> item list \<Rightarrow> bool" where
  "separated r xs \<longleftrightarrow> list_all (validItem r) xs \<and> seams xs"

fun resolve :: "'f golib \<Rightarrow> 'f SwaggerVariableReplacer \<Rightarrow> pattern \<Rightarrow> item \<Rightarrow> item" where
  "resolve L r p (Text t) = Text t"
| "resolve L r p (Hole q name) =
     (if q = p then
        (case constants r name of
           Some v \<Rightarrow> Text (Sprintf_v L v)
         | None \<Rightarrow> Hole q name)
      else Hole q name)"

section \<open>Extraction: initializers that are not literals\<close>

lemma extractValue_nonLiteral: "nonLiteral e \<Longrightarrow> extractValue L e = Inr None"
  by (cases e) (simp_all add: nonLiteral_def)

lemma bindName_nonLiteral:
  "i < length vals \<Longrightarrow> nonLiteral (vals ! i) \<Longrightarrow> bindName L r i name vals = Inr r"
  by (simp add: bindName_def extractValue_nonLiteral)

lemma bindName_other:
  "bindName L r i name vals = Inr r' \<Longrightarrow> k \<noteq> name \<Longrightarrow> constants r' k = constants r k"
  by (auto simp: bindName_def split: if_splits sum.splits option.splits)

lemma bindName_patterns:
  "bindName L r i name vals = Inr r' \<Longrightarrow> patterns r' = patterns r"
  by (auto simp: bindName_def split: if_splits sum.splits option.splits)

lemma namesLoop_unbound:
  assumes "namesLoop L r i names vals = Inr r'"
    and "\<forall>j<length names. names ! j = k \<and> i + j < length vals \<longrightarrow> nonLiteral (vals ! (i + j))"
  shows "constants r' k = constants r k"
  using assms
proof (induction names arbitrary: r i)
  case Nil
  then show ?case by simp
next
  case (Cons name names)
  from Cons.prems(1) obtain r1 where b: "bindName L r i name vals = Inr r1"
    and l: "namesLoop L r1 (Suc i) names vals = Inr r'"
    by (auto split: sum.splits)
  have "\<forall>j<length names. names ! j = k \<and> Suc i + j < length vals
          \<longrightarrow> nonLiteral (vals ! (Suc i + j))"
  proof (intro allI impI)
    fix j assume "j < length names" "names ! j = k \<and> Suc i + j < length vals"
    with Cons.prems(2) [rule_format, of "Suc j"] show "nonLiteral (vals ! (Suc i + j))" by simp
  qed
  from Cons.IH [OF l this] have 1: "constants r' k = constants r1 k" .
  have "constants r1 k = constants r k"
  proof (cases "k = name")
    case True
    show ?thesis
    proof (cases "i < length vals")
      case True
      with \<open>k = name\<close> Cons.prems(2) [rule_format, of 0] have "nonLiteral (vals ! i)" by simp
      with True b show ?thesis by (simp add: bindName_nonLiteral)
    next
      case False
      with b show ?thesis by (simp add: bindName_def)
    qed
  next
    case False
    with b show ?thesis by (rule bindName_other)
  qed
  with 1 show ?case by simp
qed

lemma namesLoop_all_nonLiteral:
  "\<forall>j<length names. i + j < length vals \<longrightarrow> nonLiteral (vals ! (i + j))
    \<Longrightarrow> namesLoop L r i names vals = Inr r"
proof (induction names arbitrary: i)
  case Nil
  then show ?case by simp
next
  case (Cons name names)
  have b: "bindName L r i name vals = Inr r"
  proof (cases "i < length vals")
    case True
    with Cons.prems [rule_format, of 0] show ?thesis by (simp add: bindName_nonLiteral)
  next
    case False
    then show ?thesis by (simp add: bindName_def)
  qed
  have "\<forall>j<length names. Suc i + j < length vals \<longrightarrow> nonLiteral (vals ! (Suc i + j))"
  proof (intro allI impI)
    fix j assume "j < length names" "Suc i + j < length vals"
    with Cons.prems [rule_format, of "Suc j"] show "nonLiteral (vals ! (Suc i + j))" by simp
  qed
  from Cons.IH [OF this] b show ?case by simp
qed

text \<open>
  Claim C4.  An initializer that is not a literal (a call, an arithmetic expression, a
  reference to another identifier, a composite literal, or any expression other than a
  basic literal, \<^verbatim>\<open>true\<close> and \<^verbatim>\<open>false\<close>) gives no value and no error: \<^verbatim>\<open>extractValue\<close>
  returns \<^verbatim>\<open>nil\<close>, the body of the loop over the names leaves the table as it was,
  and after the whole loop over the names of the declaration the entry of a name whose
  initializers are not literals is what it was before.  A declaration all of whose
  initializers are not literals leaves the table unchanged and ends without an error.
\<close>

theorem nonliteral_initializer_gives_no_binding:
  assumes "i < length names" and "i < length vals" and "nonLiteral (vals ! i)"
  shows "extractValue L (vals ! i) = Inr None
       \<and> bindName L r i (names ! i) vals = Inr r
       \<and> (namesLoop L r 0 names vals = Inr r'
            \<and> (\<forall>j<length names. names ! j = names ! i \<and> j < length vals
                  \<longrightarrow> nonLiteral (vals ! j))
          \<longrightarrow> constants r' (names ! i) = constants r (names ! i))
       \<and> ((\<forall>j<length vals. nonLiteral (vals ! j)) \<longrightarrow> namesLoop L r 0 names vals = Inr r)"
proof (intro conjI impI)
  show "extractValue L (vals ! i) = Inr None"
    using assms(3) by (rule extractValue_nonLiteral)
  show "bindName L r i (names ! i) vals = Inr r"
    using assms(2,3) by (rule bindName_nonLiteral)
next
  assume a: "namesLoop L r 0 names vals = Inr r'
    \<and> (\<forall>j<length names. names ! j = names ! i \<and> j < length vals \<longrightarrow> nonLiteral (vals ! j))"
  then have "\<forall>j<length names. names ! j = names ! i \<and> 0 + j < length vals
               \<longrightarrow> nonLiteral (vals ! (0 + j))"
    by simp
  with a show "constants r' (names ! i) = constants r (names ! i)"
    by (blast intro: namesLoop_unbound)
next
  assume "\<forall>j<length vals. nonLiteral (vals ! j)"
  then have "\<forall>j<length names. 0 + j < length vals \<longrightarrow> nonLiteral (vals ! (0 + j))"
    by simp
  then show "namesLoop L r 0 names vals = Inr r"
    by (rule namesLoop_all_nonLiteral)
qed

lemma Atoi_1: "Atoi ''1'' = Some 1"
  by (simp add: Atoi_def isDigit_def digitsVal_def digitVal_def)

theorem nonliteral_initializer_gives_no_binding_witness:
  "extractValue noLib (CallExpr (Ident ''f'') []) = Inr None
   \<and> bindName noLib NewSwaggerVariableReplacer 1 ''b''
        [BasicLit token_INT ''1'', CallExpr (Ident ''f'') []] = Inr NewSwaggerVariableReplacer
   \<and> namesLoop noLib NewSwaggerVariableReplacer 0 [''a'', ''b'']
        [BasicLit token_INT ''1'', CallExpr (Ident ''f'') []]
       = Inr (NewSwaggerVariableReplacer\<lparr>constants := [''a'' \<mapsto> IntVal 1]\<rparr>)
   \<and> constants (NewSwaggerVariableReplacer\<lparr>constants := [''a'' \<mapsto> IntVal 1]\<rparr> :: unit SwaggerVariableReplacer) ''b''
       = constants (NewSwaggerVariableReplacer :: unit SwaggerVariableReplacer) ''b''"
proof -
  let ?vals = "[BasicLit token_INT ''1'', CallExpr (Ident ''f'') []]"
  let ?r' = "NewSwaggerVariableReplacer\<lparr>constants := [''a'' \<mapsto> IntVal 1]\<rparr> :: unit SwaggerVariableReplacer"
  have n: "nonLiteral (?vals ! 1)" by (simp add: nonLiteral_def)
  have l: "namesLoop noLib NewSwaggerVariableReplacer 0 [''a'', ''b''] ?vals = Inr ?r'"
    by (simp add: bindName_def Atoi_1 NewSwaggerVariableReplacer_def)
  have h: "\<forall>j<length [''a'', ''b'']. [''a'', ''b''] ! j = [''a'', ''b''] ! 1 \<and> j < length ?vals \<longrightarrow> nonLiteral (?vals ! j)"
    by (simp add: nonLiteral_def less_Suc_eq)
  from nonliteral_initializer_gives_no_binding [of 1 "[''a'', ''b'']" ?vals noLib NewSwaggerVariableReplacer ?r', OF _ _ n] l h
  show ?thesis by simp
qed

section \<open>Extraction: the traversal and the pairing of names and initializers\<close>

lemma visitAll_append:
  "visitAll f (xs @ ys) s = (case visitAll f xs s of Inl e \<Rightarrow> Inl e | Inr s' \<Rightarrow> visitAll f ys s')"
  by (induction xs arbitrary: s) (auto split: sum.splits)

lemma Inspect_preorder:
  "Inspect f n s = visitAll f (preorder n) s"
  "InspectList f ns s = visitAll f (preorderList ns) s"
proof (induction f n s and f ns s rule: Inspect_InspectList.induct)
  case (1 f n s)
  then show ?case by (simp split: sum.splits del: Inspect.simps add: Inspect.simps [of f n s])
next
  case (2 f s)
  then show ?case by simp
next
  case (3 f n ns s)
  then show ?case
    by (simp add: visitAll_append split: sum.splits del: Inspect.simps preorder.simps)
qed

lemma visit_not_decl: "\<not> isDecl n \<Longrightarrow> visit L n r = Inr r"
  by (cases n) (simp_all add: visit_def isDecl_def)

lemma visitAll_no_decl:
  "\<forall>n\<in>set ns. \<not> isDecl n \<Longrightarrow> visitAll (visit L) ns r = Inr r"
  by (induction ns) (simp_all add: visit_not_decl)


lemma InspectList_append:
  "InspectList f (xs @ ys) s =
     (case InspectList f xs s of Inl e \<Rightarrow> Inl e | Inr s' \<Rightarrow> InspectList f ys s')"
  by (induction xs arbitrary: s) (simp_all split: sum.splits del: Inspect.simps)

lemma Atoi_hex: "Atoi ''0x10'' = None"
  by (simp add: Atoi_def isDigit_def)

lemma bindAll_Nil: "bindAll r [] = r"
  by (simp add: bindAll_def)

lemma bindAll_append: "bindAll (bindAll r ps) qs = bindAll r (ps @ qs)"
  by (simp add: bindAll_def)

lemma bindAll_Cons:
  "bindAll (r\<lparr>constants := (constants r)(k \<mapsto> v)\<rparr>) ps = bindAll r ((k, v) # ps)"
proof -
  have "(constants r)(k \<mapsto> v) ++ map_of (rev ps) = constants r ++ (map_of (rev ps @ [(k, v)]))"
    by (simp add: map_add_assoc [symmetric] map_add_upd)
  then show ?thesis by (simp add: bindAll_def del: fun_upd_apply)
qed

lemma extractValue_no_panic:
  "e \<noteq> BasicLit token_STRING [] \<Longrightarrow> \<exists>ov. extractValue L e = Inr ov"
  by (cases e) (auto simp: Let_def split: option.splits)

lemma namesLoop_pairs:
  assumes "BasicLit token_STRING [] \<notin> set vals"
  shows "namesLoop L r i names vals = Inr (bindAll r (pairs L (zip names (drop i vals))))"
proof (induction names arbitrary: r i)
  case Nil
  show ?case by (simp add: bindAll_Nil)
next
  case (Cons name names)
  show ?case
  proof (cases "i < length vals")
    case False
    then have "drop i vals = []" "drop (Suc i) vals = []" by simp_all
    with False Cons.IH [of r "Suc i"] show ?thesis by (simp add: bindName_def bindAll_Nil)
  next
    case True
    then have d: "drop i vals = vals ! i # drop (Suc i) vals"
      by (simp add: Cons_nth_drop_Suc)
    from True assms have "vals ! i \<noteq> BasicLit token_STRING []" by (metis nth_mem)
    from extractValue_no_panic [OF this] obtain ov where ov: "extractValue L (vals ! i) = Inr ov" ..
    show ?thesis
    proof (cases ov)
      case None
      with ov True Cons.IH [of r "Suc i"] show ?thesis
        by (simp add: bindName_def d)
    next
      case (Some v)
      with ov True have b: "bindName L r i name vals = Inr (r\<lparr>constants := (constants r)(name \<mapsto> v)\<rparr>)"
        by (simp add: bindName_def)
      have "namesLoop L r i (name # names) vals
              = namesLoop L (r\<lparr>constants := (constants r)(name \<mapsto> v)\<rparr>) (Suc i) names vals"
        by (simp only: namesLoop.simps b sum.case)
      also have "\<dots> = Inr (bindAll (r\<lparr>constants := (constants r)(name \<mapsto> v)\<rparr>)
                              (pairs L (zip names (drop (Suc i) vals))))"
        by (rule Cons.IH)
      also have "\<dots> = Inr (bindAll r ((name, v) # pairs L (zip names (drop (Suc i) vals))))"
        by (simp only: bindAll_Cons)
      also have "(name, v) # pairs L (zip names (drop (Suc i) vals))
                   = pairs L (zip (name # names) (drop i vals))"
        using ov Some by (simp add: d)
      finally show ?thesis .
    qed
  qed
qed

lemma namesLoop_specPairs:
  "BasicLit token_STRING [] \<notin> set vals
    \<Longrightarrow> namesLoop L r 0 names vals = Inr (bindAll r (specPairs L (ValueSpec names ty vals)))"
  using namesLoop_pairs [of vals L r 0 names] by (simp add: specPairs_def)

lemma specsLoop_pairs:
  "\<forall>spec\<in>set specs. plainSpec spec
    \<Longrightarrow> specsLoop L r specs = Inr (bindAll r (concat (map (specPairs L) specs)))"
proof (induction specs arbitrary: r)
  case Nil
  show ?case by (simp add: bindAll_Nil)
next
  case (Cons spec specs)
  from Cons.prems have "plainSpec spec" by simp
  then obtain names ty vals where s: "spec = ValueSpec names ty vals"
    and v: "BasicLit token_STRING [] \<notin> set vals"
    by (cases spec) (simp_all add: plainSpec_def)
  from Cons.prems have "\<forall>spec\<in>set specs. plainSpec spec" by simp
  from Cons.IH [OF this] namesLoop_specPairs [OF v, of L r names ty] s
  show ?case by (simp add: bindAll_append)
qed

lemma Inspect_plainSpec:
  assumes "plainSpec spec"
  shows "Inspect (visit L) spec r
           = Inr (bindAll r (if untyped spec then specPairs L spec else []))"
proof -
  from assms obtain names ty vals where s: "spec = ValueSpec names ty vals"
    and v: "BasicLit token_STRING [] \<notin> set vals"
    and c: "\<forall>m\<in>set (preorderList (children spec)). \<not> isDecl m"
    by (cases spec) (simp_all add: plainSpec_def)
  have kids: "InspectList (visit L) (children spec) r' = Inr r'" for r'
    unfolding Inspect_preorder(2) using c by (rule visitAll_no_decl)
  have vis: "visit L spec r = Inr (bindAll r (if untyped spec then specPairs L spec else []))"
    using namesLoop_specPairs [OF v, of L r names ty] s
    by (simp add: visit_def untyped_def bindAll_Nil)
  show ?thesis
    by (subst Inspect.simps) (simp add: vis kids del: Inspect.simps)
qed

lemma InspectList_plainSpecs:
  "\<forall>spec\<in>set specs. plainSpec spec
    \<Longrightarrow> InspectList (visit L) specs r
          = Inr (bindAll r (concat (map (specPairs L) (filter untyped specs))))"
proof (induction specs arbitrary: r)
  case Nil
  show ?case by (simp add: bindAll_Nil)
next
  case (Cons spec specs)
  from Cons.prems have p: "plainSpec spec" and ps: "\<forall>spec\<in>set specs. plainSpec spec" by simp_all
  show ?case
    by (simp add: Inspect_plainSpec [OF p] Cons.IH [OF ps] bindAll_append bindAll_Nil
          del: Inspect.simps)
qed

lemma extractNode_GenDecl:
  assumes "\<forall>spec\<in>set specs. plainSpec spec"
  shows "extractNode L (GenDecl tok specs) r
           = Inr (bindAll r ((if tok = token_CONST then concat (map (specPairs L) specs) else [])
                             @ concat (map (specPairs L) (filter untyped specs))))"
proof -
  have v: "visit L (GenDecl tok specs) r
             = Inr (bindAll r (if tok = token_CONST then concat (map (specPairs L) specs) else []))"
    by (simp add: visit_def specsLoop_pairs [OF assms] bindAll_Nil)
  show ?thesis
    unfolding extractNode_def
    by (subst Inspect.simps)
       (simp add: v InspectList_plainSpecs [OF assms] bindAll_append del: Inspect.simps)
qed

lemma pairs_iff:
  "(k, v) \<in> set (pairs L xs) \<longleftrightarrow> (\<exists>e. (k, e) \<in> set xs \<and> extractValue L e = Inr (Some v))"
  by (induction L xs rule: pairs.induct) (auto split: sum.splits option.splits)

lemma specPairs_iff:
  "(k, v) \<in> set (concat (map (specPairs L) specs)) \<longleftrightarrow> bound L specs k v"
proof
  assume "(k, v) \<in> set (concat (map (specPairs L) specs))"
  then obtain spec where sp: "spec \<in> set specs" and kv: "(k, v) \<in> set (specPairs L spec)" by auto
  from kv obtain names ty vals where s: "spec = ValueSpec names ty vals"
    by (cases spec) (simp_all add: specPairs_def)
  with kv obtain e where e: "(k, e) \<in> set (zip names vals)" "extractValue L e = Inr (Some v)"
    by (auto simp: specPairs_def pairs_iff)
  from e(1) obtain i where "i < length names" "i < length vals" "names ! i = k" "vals ! i = e"
    by (auto simp: set_zip)
  with sp s e(2) show "bound L specs k v" unfolding bound_def by blast
next
  assume "bound L specs k v"
  then obtain names ty vals i where sp: "ValueSpec names ty vals \<in> set specs"
    and i: "i < length names" "i < length vals" "names ! i = k"
    and e: "extractValue L (vals ! i) = Inr (Some v)"
    unfolding bound_def by blast
  from i have "(k, vals ! i) \<in> set (zip names vals)" by (auto simp: set_zip)
  with e have "(k, v) \<in> set (specPairs L (ValueSpec names ty vals))"
    by (auto simp: specPairs_def pairs_iff)
  with sp show "(k, v) \<in> set (concat (map (specPairs L) specs))" by auto
qed

lemma bindAll_lookup:
  assumes "(k, v) \<in> set ps" and "\<forall>v'. (k, v') \<in> set ps \<longrightarrow> v' = v"
  shows "constants (bindAll r ps) k = Some v"
proof -
  from assms(1) have "k \<in> fst ` set (rev ps)" by force
  then have "map_of (rev ps) k \<noteq> None" by (simp only: map_of_eq_None_iff not_not)
  then obtain v' where v': "map_of (rev ps) k = Some v'" by blast
  then have "(k, v') \<in> set ps" by (auto dest: map_of_SomeD)
  with assms(2) v' have "map_of (rev ps) k = Some v" by simp
  then show ?thesis by (simp add: bindAll_def map_add_Some_iff)
qed

lemma bindAll_dom: "dom (constants (bindAll r ps)) = dom (constants r) \<union> fst ` set ps"
  by (auto simp: bindAll_def dom_map_of_conv_image_fst)

lemma bindAll_other: "k \<notin> fst ` set ps \<Longrightarrow> constants (bindAll r ps) k = constants r k"
  by (simp add: bindAll_def map_add_dom_app_simps dom_map_of_conv_image_fst)

lemma filter_pairs_subset:
  "set (concat (map (specPairs L) (filter P specs))) \<subseteq> set (concat (map (specPairs L) specs))"
  by auto


text \<open>
  Claim C1, as amended.  A group of constant declarations whose specifications are as
  the parser gives them, with no declaration inside a type or an initializer (as when the
  initializers are literals): extraction ends without an error, whatever the numbers of
  names and of initializers.  The names with a binding from the group are exactly those
  that stand, in one of its specifications, at an index \<open>i\<close> below the number of
  initializers where \<^verbatim>\<open>extractValue\<close> resolves the initializer at \<open>i\<close>; every other
  entry of the table is as before.  So of \<open>N\<close> names with \<open>M\<close> initializers, all resolved,
  all \<open>N\<close> names are bound when \<open>M \<ge> N\<close> and only the first \<open>M\<close> when \<open>M < N\<close>.
  The table is the old one overwritten with the pairs of all specifications in order
  and then, since the traversal comes to each specification a second time, with those
  of the specifications without a declared type; so a name is bound to the value of the
  initializer at its index whenever every place of the group that binds it gives that
  value, as when the name is declared once.
\<close>

theorem const_group_positional_pairing:
  assumes "\<forall>spec\<in>set specs. plainSpec spec"
  shows "\<exists>r'. extractNode L (GenDecl token_CONST specs) r = Inr r'
       \<and> r' = bindAll r (concat (map (specPairs L) specs)
                          @ concat (map (specPairs L) (filter untyped specs)))
       \<and> dom (constants r') = dom (constants r) \<union> {k. \<exists>v. bound L specs k v}
       \<and> (\<forall>k. (\<forall>v. \<not> bound L specs k v) \<longrightarrow> constants r' k = constants r k)
       \<and> (\<forall>k v. bound L specs k v \<and> (\<forall>v'. bound L specs k v' \<longrightarrow> v' = v)
            \<longrightarrow> constants r' k = Some v)"
proof -
  let ?P = "concat (map (specPairs L) specs)"
  let ?Q = "concat (map (specPairs L) (filter untyped specs))"
  let ?r' = "bindAll r (?P @ ?Q)"
  have sub: "set ?Q \<subseteq> set ?P" by (rule filter_pairs_subset)
  have all: "(k, v) \<in> set (?P @ ?Q) \<longleftrightarrow> bound L specs k v" for k v
    using sub by (auto simp: specPairs_iff [symmetric])
  have keys: "fst ` set (?P @ ?Q) = {k. \<exists>v. bound L specs k v}"
  proof (rule set_eqI)
    fix k
    have "k \<in> fst ` set (?P @ ?Q) \<longleftrightarrow> (\<exists>v. (k, v) \<in> set (?P @ ?Q))" by force
    then show "k \<in> fst ` set (?P @ ?Q) \<longleftrightarrow> k \<in> {k. \<exists>v. bound L specs k v}"
      by (simp only: all mem_Collect_eq)
  qed
  have 1: "extractNode L (GenDecl token_CONST specs) r = Inr ?r'"
    using extractNode_GenDecl [OF assms, of L token_CONST r] by simp
  have 2: "dom (constants ?r') = dom (constants r) \<union> {k. \<exists>v. bound L specs k v}"
    by (simp only: bindAll_dom keys)
  have 3: "\<forall>k. (\<forall>v. \<not> bound L specs k v) \<longrightarrow> constants ?r' k = constants r k"
  proof (intro allI impI)
    fix k assume "\<forall>v. \<not> bound L specs k v"
    with keys have "k \<notin> fst ` set (?P @ ?Q)" by simp
    then show "constants ?r' k = constants r k" by (rule bindAll_other)
  qed
  have 4: "\<forall>k v. bound L specs k v \<and> (\<forall>v'. bound L specs k v' \<longrightarrow> v' = v)
            \<longrightarrow> constants ?r' k = Some v"
  proof (intro allI impI)
    fix k v assume h: "bound L specs k v \<and> (\<forall>v'. bound L specs k v' \<longrightarrow> v' = v)"
    then have a: "(k, v) \<in> set (?P @ ?Q)" by (simp only: all)
    from h all have b: "\<forall>v'. (k, v') \<in> set (?P @ ?Q) \<longrightarrow> v' = v" by blast
    from a b show "constants ?r' k = Some v" by (rule bindAll_lookup)
  qed
  from 1 2 3 4 show ?thesis by blast
qed

text \<open>
  \<^verbatim>\<open>const ( A, B, C = 1, 0x10, 3; D, E bool = true )\<close>: \<^verbatim>\<open>A\<close>, \<^verbatim>\<open>C\<close> and \<^verbatim>\<open>D\<close> are bound.
\<close>

lemma Atoi_3: "Atoi ''3'' = Some 3"
  by (simp add: Atoi_def isDigit_def digitsVal_def digitVal_def)

theorem const_group_positional_pairing_witness:
  "extractNode noLib
     (GenDecl token_CONST
        [ValueSpec [''A'', ''B'', ''C''] None
           [BasicLit token_INT ''1'', BasicLit token_INT ''0x10'', BasicLit token_INT ''3''],
         ValueSpec [''D'', ''E''] (Some (Ident ''bool'')) [Ident ''true'']])
     NewSwaggerVariableReplacer
   = Inr (NewSwaggerVariableReplacer
            \<lparr>constants := [''A'' \<mapsto> IntVal 1, ''C'' \<mapsto> IntVal 3, ''D'' \<mapsto> BoolVal True]\<rparr>)"
proof -
  let ?s1 = "ValueSpec [''A'', ''B'', ''C''] None
           [BasicLit token_INT ''1'', BasicLit token_INT ''0x10'', BasicLit token_INT ''3'']"
  let ?s2 = "ValueSpec [''D'', ''E''] (Some (Ident ''bool'')) [Ident ''true'']"
  have h: "\<forall>spec\<in>set [?s1, ?s2]. plainSpec spec"
    by (simp add: plainSpec_def isDecl_def)
  have p1: "specPairs noLib ?s1 = [(''A'', IntVal 1), (''C'', IntVal 3)]"
    by (simp add: specPairs_def Atoi_1 Atoi_hex Atoi_3)
  have p2: "specPairs noLib ?s2 = [(''D'', BoolVal True)]"
    by (simp add: specPairs_def Trim_def HasPrefix_def Let_def)
  have u: "filter untyped [?s1, ?s2] = [?s1]"
    by (simp add: untyped_def)
  have m: "Map.empty ++ map_of (rev ([(''A'', IntVal 1), (''C'', IntVal 3), (''D'', BoolVal True),
                (''A'', IntVal 1), (''C'', IntVal 3)]))
          = [''A'' \<mapsto> IntVal 1, ''C'' \<mapsto> IntVal 3, ''D'' \<mapsto> BoolVal True]"
    by (rule ext) simp
  from const_group_positional_pairing [OF h, of noLib NewSwaggerVariableReplacer]
  have "extractNode noLib (GenDecl token_CONST [?s1, ?s2]) NewSwaggerVariableReplacer
      = Inr (bindAll NewSwaggerVariableReplacer
               (concat (map (specPairs noLib) [?s1, ?s2])
                @ concat (map (specPairs noLib) (filter untyped [?s1, ?s2]))))"
    by blast
  also have "concat (map (specPairs noLib) [?s1, ?s2])
                @ concat (map (specPairs noLib) (filter untyped [?s1, ?s2]))
        = [(''A'', IntVal 1), (''C'', IntVal 3), (''D'', BoolVal True),
                (''A'', IntVal 1), (''C'', IntVal 3)]"
    unfolding u by (simp add: p1 p2)
  finally show ?thesis
    using m by (simp add: bindAll_def NewSwaggerVariableReplacer_def)
qed

text \<open>
  Claim C1 as stated fails for a literal that \<^verbatim>\<open>extractValue\<close> does not resolve: of
  \<^verbatim>\<open>const A, B = 1, 0x10\<close>, two names and two literal initializers, only \<^verbatim>\<open>A\<close> is bound.
\<close>

theorem const_spec_unresolved_literal_counterexample:
  "extractNode noLib
     (GenDecl token_CONST
        [ValueSpec [''A'', ''B''] None [BasicLit token_INT ''1'', BasicLit token_INT ''0x10'']])
     NewSwaggerVariableReplacer
   = Inr (NewSwaggerVariableReplacer\<lparr>constants := [''A'' \<mapsto> IntVal 1]\<rparr>)
   \<and> constants (NewSwaggerVariableReplacer\<lparr>constants := [''A'' \<mapsto> IntVal 1]\<rparr>
                  :: unit SwaggerVariableReplacer) ''B'' = None"
  by (simp add: extractNode_def visit_def bindName_def Atoi_1 Atoi_hex NewSwaggerVariableReplacer_def)


section \<open>Extraction: integer literals\<close>

lemma digitsVal_snoc: "digitsVal (ds @ [d]) = digitsVal ds * 10 + digitVal d"
  by (simp add: digitsVal_def)

lemma decimalValue_snoc: "decimalValue (ds @ [d]) = decimalValue ds * 10 + digitVal d"
proof -
  have "(\<Sum>i<length ds. digitVal ((ds @ [d]) ! i) * 10 ^ (length ds - i))
          = (\<Sum>i<length ds. digitVal (ds ! i) * 10 ^ (length ds - 1 - i) * 10)"
  proof (rule sum.cong)
    fix i assume "i \<in> {..<length ds}"
    then have i: "i < length ds" by simp
    then have "length ds - i = Suc (length ds - 1 - i)" by simp
    with i show "digitVal ((ds @ [d]) ! i) * 10 ^ (length ds - i)
                   = digitVal (ds ! i) * 10 ^ (length ds - 1 - i) * 10"
      by (simp add: nth_append)
  qed simp
  then show ?thesis
    by (simp add: decimalValue_def sum_distrib_right)
qed

lemma digitsVal_decimalValue: "digitsVal s = decimalValue s"
proof (induction s rule: rev_induct)
  case Nil
  show ?case by (simp add: digitsVal_def decimalValue_def)
next
  case (snoc d ds)
  then show ?case by (simp only: digitsVal_snoc decimalValue_snoc)
qed

lemma isDigit_not_sign: "isDigit c \<Longrightarrow> c \<noteq> CHR ''-'' \<and> c \<noteq> CHR ''+''"
  by (auto simp: isDigit_def)

lemma Atoi_digits:
  assumes "s \<noteq> []" and "list_all isDigit s"
  shows "Atoi s = (if decimalValue s \<ge> 2 ^ 63 then None else Some (decimalValue s))"
proof -
  from assms have "isDigit (hd s)" by (cases s) simp_all
  then have "hd s \<noteq> CHR ''-''" "hd s \<noteq> CHR ''+''" by (simp_all add: isDigit_not_sign)
  with assms show ?thesis
    by (simp add: Atoi_def digitsVal_decimalValue)
qed

lemma Atoi_not_digits:
  assumes "s \<noteq> []" and "isDigit (hd s)" and "\<not> list_all isDigit s"
  shows "Atoi s = None"
proof -
  from assms(2) have "hd s \<noteq> CHR ''-''" "hd s \<noteq> CHR ''+''" by (simp_all add: isDigit_not_sign)
  with assms show ?thesis by (simp add: Atoi_def)
qed

lemma extractNode_File:
  "extractNode L (File (pre @ d # post)) r0 =
     (case InspectList (visit L) pre r0 of
        Inl e \<Rightarrow> Inl e
      | Inr r1 \<Rightarrow>
          (case extractNode L d r1 of
             Inl e \<Rightarrow> Inl e
           | Inr r2 \<Rightarrow> InspectList (visit L) post r2))"
  unfolding extractNode_def
  by (subst Inspect.simps)
     (simp add: visit_def InspectList_append split: sum.splits del: Inspect.simps)

lemma plainSpec_single: "plainSpec (ValueSpec [name] None [BasicLit token_INT t])"
  by (simp add: plainSpec_def isDecl_def)

lemma rejected_literal_unbound:
  assumes "Atoi t = None"
  shows "extractNode L (GenDecl tok [ValueSpec [name] None [BasicLit token_INT t]]) r = Inr r"
proof -
  have h: "\<forall>spec\<in>set [ValueSpec [name] None [BasicLit token_INT t]]. plainSpec spec"
    by (simp add: plainSpec_single)
  have "specPairs L (ValueSpec [name] None [BasicLit token_INT t]) = []"
    using assms by (simp add: specPairs_def)
  with extractNode_GenDecl [OF h, of L tok r] show ?thesis
    by (simp add: bindAll_Nil)
qed

text \<open>
  Claim C3, as amended.  In a declaration of constants, or in a specification without a
  declared type of any declaration, let a name stand at an index whose initializer is
  an integer literal written in decimal digits only, without a leading zero and of a
  value below \<open>2\<^sup>6\<^sup>3\<close>, the specifications being as the parser gives them with no
  declaration inside a type or an initializer, and no place of the declaration binding
  the name to another value.  Then extraction of the declaration ends without an error
  and with the name bound to the value of the literal.  Extraction of a file comes to the
  declaration with the table of what stands before it and goes on from the table the
  declaration leaves.  An integer literal with any other byte in it (the prefixes
  \<^verbatim>\<open>0x\<close>, \<^verbatim>\<open>0b\<close> and \<^verbatim>\<open>0o\<close>, the separator \<^verbatim>\<open>_\<close>), or of a value from \<open>2\<^sup>6\<^sup>3\<close> on, gives
  no binding: \<^verbatim>\<open>strconv.Atoi\<close> returns an error and the table stays as it is.
\<close>

theorem decimal_integer_literal_bound:
  assumes "s \<noteq> []" and "list_all isDigit s" and "s = ''0'' \<or> hd s \<noteq> CHR ''0''"
    and "decimalValue s < 2 ^ 63"
    and "\<forall>spec\<in>set specs. plainSpec spec"
    and "ValueSpec names ty vals \<in> set specs"
    and "i < length names" and "i < length vals" and "vals ! i = BasicLit token_INT s"
    and "tok = token_CONST \<or> ty = None"
    and "\<forall>v. bound L specs (names ! i) v \<longrightarrow> v = IntVal (decimalValue s)"
  shows "(\<exists>r'. extractNode L (GenDecl tok specs) r = Inr r'
            \<and> constants r' (names ! i) = Some (IntVal (decimalValue s)))
       \<and> (\<forall>pre post r0.
            extractNode L (File (pre @ GenDecl tok specs # post)) r0 =
              (case InspectList (visit L) pre r0 of
                 Inl e \<Rightarrow> Inl e
               | Inr r1 \<Rightarrow>
                   (case extractNode L (GenDecl tok specs) r1 of
                      Inl e \<Rightarrow> Inl e
                    | Inr r2 \<Rightarrow> InspectList (visit L) post r2)))
       \<and> (\<forall>t name tok'. t \<noteq> [] \<and> isDigit (hd t)
              \<and> (\<not> list_all isDigit t \<or> decimalValue t \<ge> 2 ^ 63)
            \<longrightarrow> extractNode L (GenDecl tok' [ValueSpec [name] None [BasicLit token_INT t]]) r
                  = Inr r)"
proof (intro conjI allI impI)
  let ?P = "if tok = token_CONST then concat (map (specPairs L) specs) else []"
  let ?Q = "concat (map (specPairs L) (filter untyped specs))"
  let ?v = "IntVal (decimalValue s)"
  from assms(1,2,4) have "Atoi s = Some (decimalValue s)"
    by (simp add: Atoi_digits)
  with assms(9) have e: "extractValue L (vals ! i) = Inr (Some ?v)" by simp
  from assms(7,8) have z: "(names ! i, vals ! i) \<in> set (zip names vals)"
    by (auto simp: set_zip)
  with e have sp: "(names ! i, ?v) \<in> set (specPairs L (ValueSpec names ty vals))"
    by (auto simp: specPairs_def pairs_iff)
  have a: "(names ! i, ?v) \<in> set (?P @ ?Q)"
  proof (cases "tok = token_CONST")
    case True
    with sp assms(6) show ?thesis by auto
  next
    case False
    with assms(10) have "untyped (ValueSpec names ty vals)" by (simp add: untyped_def)
    with sp assms(6) show ?thesis by auto
  qed
  have "set (?P @ ?Q) \<subseteq> set (concat (map (specPairs L) specs))"
    using filter_pairs_subset [of L untyped specs] by auto
  then have b: "\<forall>v'. (names ! i, v') \<in> set (?P @ ?Q) \<longrightarrow> v' = ?v"
    using assms(11) by (auto simp only: specPairs_iff [symmetric])
  from extractNode_GenDecl [OF assms(5), of L tok r] bindAll_lookup [OF a b, of r]
  show "\<exists>r'. extractNode L (GenDecl tok specs) r = Inr r'
            \<and> constants r' (names ! i) = Some (IntVal (decimalValue s))"
    by simp
next
  fix pre post r0
  show "extractNode L (File (pre @ GenDecl tok specs # post)) r0 =
              (case InspectList (visit L) pre r0 of
                 Inl e \<Rightarrow> Inl e
               | Inr r1 \<Rightarrow>
                   (case extractNode L (GenDecl tok specs) r1 of
                      Inl e \<Rightarrow> Inl e
                    | Inr r2 \<Rightarrow> InspectList (visit L) post r2))"
    by (rule extractNode_File)
next
  fix t name tok'
  assume h: "t \<noteq> [] \<and> isDigit (hd t) \<and> (\<not> list_all isDigit t \<or> decimalValue t \<ge> 2 ^ 63)"
  then have "Atoi t = None"
    by (cases "list_all isDigit t") (simp_all add: Atoi_digits Atoi_not_digits)
  then show "extractNode L (GenDecl tok' [ValueSpec [name] None [BasicLit token_INT t]]) r = Inr r"
    by (rule rejected_literal_unbound)
qed


text \<open>
  \<^verbatim>\<open>StatusSuccess = 200\<close> in a group is bound to \<open>200\<close>; \<^verbatim>\<open>1_000\<close> and \<open>2\<^sup>6\<^sup>3\<close> are not
  bound.
\<close>

lemma decimalValue_200: "decimalValue ''200'' = 200"
  by (simp add: decimalValue_def digitVal_def lessThan_Suc eval_nat_numeral)

lemma Atoi_small:
  "Atoi ''200'' = Some 200" "Atoi ''201'' = Some 201" "Atoi ''5'' = Some 5"
  "Atoi ''6'' = Some 6" "Atoi ''7'' = Some 7" "Atoi ''0xFF'' = None"
  by (simp_all add: Atoi_def isDigit_def digitsVal_def digitVal_def)

theorem decimal_integer_literal_bound_witness:
  "(\<exists>r'. extractNode noLib
            (GenDecl token_CONST
               [ValueSpec [''StatusSuccess''] None [BasicLit token_INT ''200''],
                ValueSpec [''StatusCreated''] None [BasicLit token_INT ''201'']])
            NewSwaggerVariableReplacer = Inr r'
          \<and> constants r' ''StatusSuccess'' = Some (IntVal 200))
   \<and> extractNode noLib
        (GenDecl token_CONST [ValueSpec [''Limit''] None [BasicLit token_INT ''1_000'']])
        NewSwaggerVariableReplacer = Inr NewSwaggerVariableReplacer
   \<and> extractNode noLib
        (GenDecl token_VAR [ValueSpec [''Big''] None [BasicLit token_INT ''9223372036854775808'']])
        NewSwaggerVariableReplacer = Inr NewSwaggerVariableReplacer"
proof -
  let ?s1 = "ValueSpec [''StatusSuccess''] None [BasicLit token_INT ''200'']"
  let ?s2 = "ValueSpec [''StatusCreated''] None [BasicLit token_INT ''201'']"
  let ?r = "NewSwaggerVariableReplacer :: unit SwaggerVariableReplacer"
  have big: "decimalValue ''9223372036854775808'' = 9223372036854775808"
    by (simp add: digitsVal_decimalValue [symmetric] digitsVal_def digitVal_def)
  have 1: "''200'' \<noteq> []" and 2: "list_all isDigit ''200''"
    and 3: "''200'' = ''0'' \<or> hd ''200'' \<noteq> CHR ''0''" and 4: "decimalValue ''200'' < 2 ^ 63"
    by (simp_all add: isDigit_def decimalValue_200)
  have 5: "\<forall>spec\<in>set [?s1, ?s2]. plainSpec spec"
    by (simp add: plainSpec_def isDecl_def)
  have 6: "ValueSpec [''StatusSuccess''] None [BasicLit token_INT ''200''] \<in> set [?s1, ?s2]"
    by simp
  have 7: "0 < length [''StatusSuccess'']" and 8: "0 < length [BasicLit token_INT ''200'']"
    and 9: "[BasicLit token_INT ''200''] ! 0 = BasicLit token_INT ''200''"
    and 10: "token_CONST = token_CONST \<or> (None :: node option) = None"
    by simp_all
  have 11: "\<forall>v. bound noLib [?s1, ?s2] ([''StatusSuccess''] ! 0) v
              \<longrightarrow> v = IntVal (decimalValue ''200'')"
    by (auto simp: bound_def Atoi_small decimalValue_200)
  have a: "''1_000'' \<noteq> [] \<and> isDigit (hd ''1_000'')
            \<and> (\<not> list_all isDigit ''1_000'' \<or> decimalValue ''1_000'' \<ge> 2 ^ 63)"
    by (simp add: isDigit_def)
  have b: "''9223372036854775808'' \<noteq> [] \<and> isDigit (hd ''9223372036854775808'')
           \<and> (\<not> list_all isDigit ''9223372036854775808''
                \<or> decimalValue ''9223372036854775808'' \<ge> 2 ^ 63)"
    by (simp add: isDigit_def big)
  note T = decimal_integer_literal_bound [OF 1 2 3 4 5 6 7 8 9 10 11, of ?r]
  from T have x: "\<exists>r'. extractNode noLib (GenDecl token_CONST [?s1, ?s2]) ?r = Inr r'
      \<and> constants r' ([''StatusSuccess''] ! 0) = Some (IntVal (decimalValue ''200''))"
    by blast
  from T a have y: "extractNode noLib
        (GenDecl token_CONST [ValueSpec [''Limit''] None [BasicLit token_INT ''1_000'']]) ?r = Inr ?r"
    by blast
  from T b have z: "extractNode noLib
        (GenDecl token_VAR [ValueSpec [''Big''] None [BasicLit token_INT ''9223372036854775808'']])
        ?r = Inr ?r"
    by blast
  from x have "\<exists>r'. extractNode noLib (GenDecl token_CONST [?s1, ?s2]) ?r = Inr r'
      \<and> constants r' ''StatusSuccess'' = Some (IntVal 200)"
    by (simp only: decimalValue_200 nth_Cons_0)
  with y z show ?thesis by (simp only: simp_thms)
qed

text \<open>
  Claim C3 as stated fails for the integer literal \<^verbatim>\<open>0xFF\<close>: \<^verbatim>\<open>const Mask = 0xFF\<close>
  produces no binding.  It fails for a variable with a declared type, \<^verbatim>\<open>var V int = 6\<close>,
  which is not bound; and in \<^verbatim>\<open>const ( B = 5; B int = 7 )\<close> the second \<^verbatim>\<open>B\<close> is not
  bound to \<open>7\<close>, the second visit of the first specification binding \<open>5\<close> again.
\<close>

theorem integer_literal_not_bound_counterexample:
  "extractValue noLib (BasicLit token_INT ''0xFF'') = Inr None
   \<and> extractNode noLib
       (GenDecl token_CONST [ValueSpec [''Mask''] None [BasicLit token_INT ''0xFF'']])
       NewSwaggerVariableReplacer = Inr NewSwaggerVariableReplacer
   \<and> extractNode noLib
       (GenDecl token_VAR [ValueSpec [''V''] (Some (Ident ''int'')) [BasicLit token_INT ''6'']])
       NewSwaggerVariableReplacer = Inr NewSwaggerVariableReplacer
   \<and> extractNode noLib
       (GenDecl token_CONST
          [ValueSpec [''B''] None [BasicLit token_INT ''5''],
           ValueSpec [''B''] (Some (Ident ''int'')) [BasicLit token_INT ''7'']])
       NewSwaggerVariableReplacer
     = Inr (NewSwaggerVariableReplacer\<lparr>constants := [''B'' \<mapsto> IntVal 5]\<rparr>)"
  by (simp add: extractNode_def visit_def bindName_def Atoi_small NewSwaggerVariableReplacer_def)


text \<open>
  A literal with a leading zero is octal in Go (\<^verbatim>\<open>010\<close> is eight); \<^verbatim>\<open>strconv.Atoi\<close>
  reads it in base ten.
\<close>

lemma legacy_octal_literal: "extractValue L (BasicLit token_INT ''010'') = Inr (Some (IntVal 10))"
  by (simp add: Atoi_def isDigit_def digitsVal_def digitVal_def)


section \<open>Extraction: declarations at any depth\<close>

lemma Atoi_5: "Atoi ''5'' = Some 5"
  by (simp add: Atoi_def isDigit_def digitsVal_def digitVal_def)

text \<open>
  Claim C9, as amended.  Extraction calls the function literal on every node of the tree,
  in the order \<open>preorder\<close> lists them, whatever their depth; nodes other than a
  \<^verbatim>\<open>GenDecl\<close> and a \<^verbatim>\<open>ValueSpec\<close> leave the table as it is; and a declaration inside the
  body of a function produces what the same declaration produces at top level.
\<close>

theorem extraction_visits_every_node:
  "extractNode L n r = visitAll (visit L) (preorder n) r
   \<and> (\<forall>m. \<not> isDecl m \<longrightarrow> visit L m r = Inr r)
   \<and> extractNode L (File [FuncDecl f (BlockStmt [DeclStmt d])]) r = extractNode L (File [d]) r"
proof (intro conjI allI impI)
  show "extractNode L n r = visitAll (visit L) (preorder n) r"
    unfolding extractNode_def by (rule Inspect_preorder(1))
  show "visit L m r = Inr r" if "\<not> isDecl m" for m
    using that by (rule visit_not_decl)
  have 1: "preorder (File [FuncDecl f (BlockStmt [DeclStmt d])])
             = [File [FuncDecl f (BlockStmt [DeclStmt d])], FuncDecl f (BlockStmt [DeclStmt d]),
                Ident f, BlockStmt [DeclStmt d], DeclStmt d] @ preorder d"
    by simp
  have 2: "preorder (File [d]) = [File [d]] @ preorder d"
    by simp
  show "extractNode L (File [FuncDecl f (BlockStmt [DeclStmt d])]) r = extractNode L (File [d]) r"
    unfolding extractNode_def Inspect_preorder(1) 1 2 visitAll_append
    by (simp add: visit_def)
qed

text \<open>
  \<^verbatim>\<open>func g() { var y = 5 }\<close> binds \<^verbatim>\<open>y\<close>.
\<close>

theorem extraction_visits_every_node_witness:
  "extractNode noLib
     (File [FuncDecl ''g'' (BlockStmt [DeclStmt
        (GenDecl token_VAR [ValueSpec [''y''] None [BasicLit token_INT ''5'']])])])
     NewSwaggerVariableReplacer
   = Inr (NewSwaggerVariableReplacer\<lparr>constants := [''y'' \<mapsto> IntVal 5]\<rparr>)
   \<and> visit noLib (BlockStmt []) NewSwaggerVariableReplacer = Inr NewSwaggerVariableReplacer"
proof -
  let ?d = "GenDecl token_VAR [ValueSpec [''y''] None [BasicLit token_INT ''5'']]"
  note T = extraction_visits_every_node [of noLib _ NewSwaggerVariableReplacer "''g''" ?d]
  from T have e: "extractNode noLib (File [FuncDecl ''g'' (BlockStmt [DeclStmt ?d])])
        NewSwaggerVariableReplacer
      = extractNode noLib (File [?d]) NewSwaggerVariableReplacer"
    by blast
  have h: "extractNode noLib (File [?d]) NewSwaggerVariableReplacer
          = Inr (NewSwaggerVariableReplacer\<lparr>constants := [''y'' \<mapsto> IntVal 5]\<rparr>)"
    by (simp add: extractNode_def visit_def bindName_def Atoi_5 NewSwaggerVariableReplacer_def)
  have "\<not> isDecl (BlockStmt [])" by (simp add: isDecl_def)
  with T have v: "visit noLib (BlockStmt []) NewSwaggerVariableReplacer
      = Inr NewSwaggerVariableReplacer"
    by blast
  show ?thesis by (simp only: e h v simp_thms)
qed

text \<open>
  Claim C9 as stated fails: \<^verbatim>\<open>func f() { const x = 5 }\<close> binds \<^verbatim>\<open>x\<close>, a constant
  declared inside a function body.
\<close>

theorem nested_declaration_counterexample:
  "extractNode noLib
     (File [FuncDecl ''f'' (BlockStmt [DeclStmt
        (GenDecl token_CONST [ValueSpec [''x''] None [BasicLit token_INT ''5'']])])])
     NewSwaggerVariableReplacer
   = Inr (NewSwaggerVariableReplacer\<lparr>constants := [''x'' \<mapsto> IntVal 5]\<rparr>)"
  by (simp add: extractNode_def visit_def bindName_def Atoi_5 NewSwaggerVariableReplacer_def)


section \<open>The rewriter: matches and replacements\<close>

lemma matchAt_SomeD:
  assumes "matchAt p s = Some (m, name, rest)"
  shows "s = m @ rest" and "m = opener p @ name @ closer p" and "name \<noteq> []"
    and "\<forall>c\<in>set name. isIdentChar c" and "isIdentStart (hd name)"
    and "closer p = [] \<or> \<not> isIdentChar (hd (closer p))"
proof -
  let ?r = "drop (length (opener p)) s"
  let ?r' = "dropWhile isIdentChar ?r"
  from assms have pre: "take (length (opener p)) s = opener p"
    and name: "name = takeWhile isIdentChar ?r"
    and ne: "name \<noteq> []" and st: "isIdentStart (hd name)"
    and cl: "take (length (closer p)) ?r' = closer p"
    and m: "m = opener p @ name @ closer p"
    and rest: "rest = drop (length (closer p)) ?r'"
    by (auto simp: matchAt_def Let_def HasPrefix_def split: if_splits)
  show "m = opener p @ name @ closer p" by (rule m)
  show "name \<noteq> []" by (rule ne)
  show "isIdentStart (hd name)" by (rule st)
  show "\<forall>c\<in>set name. isIdentChar c"
    unfolding name by (auto dest: set_takeWhileD)
  have "s = take (length (opener p)) s @ ?r" by simp
  also have "?r = name @ ?r'" unfolding name by simp
  also have "?r' = take (length (closer p)) ?r' @ rest" unfolding rest by simp
  finally show "s = m @ rest" unfolding pre cl m by simp
  show "closer p = [] \<or> \<not> isIdentChar (hd (closer p))"
  proof (cases "closer p")
    case Nil
    then show ?thesis by simp
  next
    case (Cons c cs)
    have "?r' \<noteq> []"
    proof
      assume "?r' = []"
      with cl Cons show False by simp
    qed
    then have "\<not> isIdentChar (hd ?r')" by (rule hd_dropWhile)
    moreover from cl Cons \<open>?r' \<noteq> []\<close> have "hd ?r' = c"
      by (cases ?r') auto
    ultimately show ?thesis using Cons by simp
  qed
qed

lemma matchAt_self:
  assumes "matchAt p s = Some (m, name, rest)"
  shows "matchAt p m = Some (m, name, [])"
proof -
  note d = matchAt_SomeD [OF assms]
  have tw: "takeWhile isIdentChar (name @ closer p) = name"
    using d(4,6) by (cases "closer p") (simp_all add: takeWhile_append2 takeWhile_tail)
  have dw: "dropWhile isIdentChar (name @ closer p) = closer p"
    using d(4,6) by (cases "closer p") (simp_all add: dropWhile_append2)
  show ?thesis
    using d(3,5) by (simp add: matchAt_def d(2) HasPrefix_def tw dw)
qed

lemma FindStringSubmatch_match:
  assumes "matchAt p s = Some (m, name, rest)"
  shows "FindStringSubmatch p m = [m, name]"
proof -
  from matchAt_SomeD(2,3) [OF assms] have "m \<noteq> []" by simp
  then obtain c cs where "m = c # cs" by (cases m) auto
  with matchAt_self [OF assms] show ?thesis by simp
qed

lemma replaceFunc_match:
  assumes "matchAt p s = Some (m, name, rest)"
  shows "replaceFunc L r p m =
           (case constants r name of
              Some v \<Rightarrow> (Sprintf_v L v, [])
            | None \<Rightarrow> (m, [warning name]))"
  by (simp add: replaceFunc_def FindStringSubmatch_match [OF assms]
           split: option.splits go_value.splits)

lemma matchAt_Nil: "matchAt p [] = None"
  by (simp add: matchAt_def Let_def)

lemma Replace_Nil: "ReplaceAllStringFunc p repl [] = ([], [])"
  by (subst ReplaceAllStringFunc.simps) (simp add: matchAt_Nil)

lemma Replace_match:
  assumes "matchAt p s = Some (m, name, rest)"
  shows "fst (ReplaceAllStringFunc p repl s) = fst (repl m) @ fst (ReplaceAllStringFunc p repl rest)"
    and "snd (ReplaceAllStringFunc p repl s) = snd (repl m) @ snd (ReplaceAllStringFunc p repl rest)"
  by (subst ReplaceAllStringFunc.simps, simp add: assms split_beta)+

lemma Replace_nomatch:
  assumes "matchAt p (c # cs) = None"
  shows "fst (ReplaceAllStringFunc p repl (c # cs)) = c # fst (ReplaceAllStringFunc p repl cs)"
    and "snd (ReplaceAllStringFunc p repl (c # cs)) = snd (ReplaceAllStringFunc p repl cs)"
  by (subst ReplaceAllStringFunc.simps, simp add: assms split_beta)+


lemma placeholderNames_suffix:
  "set (placeholderNames p ys) \<subseteq> set (placeholderNames p (xs @ ys))"
  by (induction xs) (auto split: option.splits)

lemma placeholderNames_match:
  assumes "matchAt p s = Some (m, name, rest)"
  shows "name \<in> set (placeholderNames p s)"
proof (cases s)
  case Nil
  with assms show ?thesis by (simp add: matchAt_Nil)
next
  case (Cons c cs)
  with assms show ?thesis by simp
qed

lemma Replace_unbound_fst:
  "\<forall>name\<in>set (placeholderNames p s). constants r name = None
    \<Longrightarrow> fst (ReplaceAllStringFunc p (replaceFunc L r p) s) = s"
proof (induction p "replaceFunc L r p" s rule: ReplaceAllStringFunc.induct)
  case (1 p s)
  show ?case
  proof (cases "matchAt p s")
    case None
    show ?thesis
    proof (cases s)
      case Nil
      then show ?thesis by (simp add: Replace_Nil)
    next
      case (Cons c cs)
      from "1.prems" Cons None have "\<forall>name\<in>set (placeholderNames p cs). constants r name = None"
        by simp
      with "1.hyps"(1) [OF None Cons] have "fst (ReplaceAllStringFunc p (replaceFunc L r p) cs) = cs" .
      with None Cons show ?thesis by (simp add: Replace_nomatch)
    qed
  next
    case (Some a)
    then obtain m name rest where a: "matchAt p s = Some (m, name, rest)" by (cases a) auto
    note d = matchAt_SomeD [OF a]
    from "1.prems" placeholderNames_match [OF a] have u: "constants r name = None" by blast
    from "1.prems" placeholderNames_suffix [of p rest m] d(1)
    have "\<forall>name\<in>set (placeholderNames p rest). constants r name = None" by blast
    with "1.hyps"(2) [OF a refl refl prod.collapse]
    have "fst (ReplaceAllStringFunc p (replaceFunc L r p) rest) = rest" .
    with u have "fst (ReplaceAllStringFunc p (replaceFunc L r p) s) = m @ rest"
      by (simp add: Replace_match [OF a] replaceFunc_match [OF a])
    with d(1) show ?thesis by simp
  qed
qed

lemma patternsLoop_unbound_fst:
  "\<forall>p\<in>set ps. \<forall>name\<in>set (placeholderNames p s). constants r name = None
    \<Longrightarrow> fst (patternsLoop L r ps s) = s"
  by (induction ps) (simp_all add: split_beta Replace_unbound_fst)

lemma processCommentLine_unbound:
  "noBoundPlaceholder r line \<Longrightarrow> fst (processCommentLine L r line) = line"
  by (simp add: noBoundPlaceholder_def processCommentLine_def patternsLoop_unbound_fst)


section \<open>The rewriter: the loop over the lines\<close>

lemma linesLoop_length:
  "length (fst (linesLoop L r i lines modified out)) = length lines"
proof (induction L r i lines modified out rule: linesLoop.induct)
  case (1 L r i lines modified out)
  show ?case
  proof (cases "i < length lines")
    case False
    then show ?thesis by (subst linesLoop.simps) simp
  next
    case True
    show ?thesis
    proof (cases "Contains (lines ! i) ''//''")
      case False
      with True "1.IH"(3) [OF True refl] show ?thesis
        by (subst linesLoop.simps) simp
    next
      case c: True
      show ?thesis
      proof (cases "fst (processCommentLine L r (lines ! i)) = lines ! i")
        case True
        with \<open>i < length lines\<close> c "1.IH"(2) [OF \<open>i < length lines\<close> refl c prod.collapse] show ?thesis
          by (subst linesLoop.simps) (simp add: split_beta Let_def)
      next
        case False
        with \<open>i < length lines\<close> c "1.IH"(1) [OF \<open>i < length lines\<close> refl c prod.collapse] show ?thesis
          by (subst linesLoop.simps) (simp add: split_beta Let_def)
      qed
    qed
  qed
qed

lemma linesLoop_nth:
  "j < length lines \<Longrightarrow>
   fst (linesLoop L r i lines modified out) ! j =
     (if i \<le> j \<and> Contains (lines ! j) ''//'' then fst (processCommentLine L r (lines ! j))
      else lines ! j)"
proof (induction L r i lines modified out rule: linesLoop.induct)
  case (1 L r i lines modified out)
  show ?case
  proof (cases "i < length lines")
    case False
    with "1.prems" show ?thesis by (subst linesLoop.simps) simp
  next
    case True
    show ?thesis
    proof (cases "Contains (lines ! i) ''//''")
      case False
      from "1.IH"(3) [OF True refl False "1.prems"] True False show ?thesis
        by (subst linesLoop.simps) (auto simp: Suc_le_eq le_less)
    next
      case c: True
      show ?thesis
      proof (cases "fst (processCommentLine L r (lines ! i)) = lines ! i")
        case same: True
        from "1.IH"(2) [OF True refl c prod.collapse _ "1.prems"] same True c show ?thesis
          by (subst linesLoop.simps) (auto simp: split_beta Let_def Suc_le_eq le_less)
      next
        case False
        let ?new = "fst (processCommentLine L r (lines ! i))"
        from "1.prems" have "j < length (lines[i := ?new])" by simp
        from "1.IH"(1) [OF True refl c prod.collapse _ this] False True c "1.prems" show ?thesis
          by (subst linesLoop.simps) (auto simp: split_beta Let_def Suc_le_eq le_less nth_list_update)
      qed
    qed
  qed
qed

lemma linesLoop_modified:
  "fst (snd (linesLoop L r i lines modified out)) \<longleftrightarrow>
     modified \<or> (\<exists>j<length lines. i \<le> j \<and> Contains (lines ! j) ''//''
                   \<and> fst (processCommentLine L r (lines ! j)) \<noteq> lines ! j)"
proof (induction L r i lines modified out rule: linesLoop.induct)
  case (1 L r i lines modified out)
  show ?case
  proof (cases "i < length lines")
    case False
    then show ?thesis by (subst linesLoop.simps) auto
  next
    case True
    show ?thesis
    proof (cases "Contains (lines ! i) ''//''")
      case False
      from "1.IH"(3) [OF True refl False] True False show ?thesis
        by (subst linesLoop.simps) (auto simp: Suc_le_eq le_less)
    next
      case c: True
      show ?thesis
      proof (cases "fst (processCommentLine L r (lines ! i)) = lines ! i")
        case same: True
        from "1.IH"(2) [OF True refl c prod.collapse] same True c show ?thesis
          by (subst linesLoop.simps) (auto simp: split_beta Let_def Suc_le_eq le_less)
      next
        case False
        from "1.IH"(1) [OF True refl c prod.collapse] False True c show ?thesis
          by (subst linesLoop.simps) (auto simp: split_beta Let_def)
      qed
    qed
  qed
qed


lemma Split_not_Nil: "Split s sep \<noteq> []"
  by (induction s) (auto split: list.splits)

lemma Join_Cons_Cons: "Join ((x # l) # ls) sep = x # Join (l # ls) sep"
  by (cases ls) simp_all

lemma Join_Cons: "ls \<noteq> [] \<Longrightarrow> Join (l # ls) sep = l @ sep @ Join ls sep"
  by (cases ls) simp_all

lemma Join_Split: "Join (Split s sep) [sep] = s"
proof (induction s)
  case Nil
  show ?case by simp
next
  case (Cons c cs)
  show ?case
  proof (cases "c = sep")
    case True
    with Cons show ?thesis by (simp add: Join_Cons Split_not_Nil)
  next
    case False
    obtain l ls where s: "Split cs sep = l # ls"
      using Split_not_Nil [of cs sep] by (cases "Split cs sep") auto
    with False Cons show ?thesis by (simp add: Join_Cons_Cons)
  qed
qed

lemma linesLoop_unmodified:
  assumes "\<not> fst (snd (linesLoop L r 0 lines False out))"
  shows "fst (linesLoop L r 0 lines False out) = lines"
proof (rule nth_equalityI)
  show "length (fst (linesLoop L r 0 lines False out)) = length lines"
    by (rule linesLoop_length)
next
  fix j assume "j < length (fst (linesLoop L r 0 lines False out))"
  then have j: "j < length lines" by (simp add: linesLoop_length)
  with assms have "Contains (lines ! j) ''//'' \<longrightarrow> fst (processCommentLine L r (lines ! j)) = lines ! j"
    by (auto simp: linesLoop_modified)
  with j show "fst (linesLoop L r 0 lines False out) ! j = lines ! j"
    by (simp add: linesLoop_nth)
qed

lemma rewrite_without_bound_placeholder:
  assumes "files w filename = Some content"
    and "\<forall>line\<in>set (Split content newline). Contains line ''//'' \<longrightarrow> noBoundPlaceholder r line"
  shows "replaceVariablesInComments L r w filename
           = Inr (w\<lparr>stdout := stdout w @ snd (snd (linesLoop L r 0 (Split content newline) False []))\<rparr>)"
    and "fst (linesLoop L r 0 (Split content newline) False []) = Split content newline"
    and "\<not> fst (snd (linesLoop L r 0 (Split content newline) False []))"
proof -
  let ?lines = "Split content newline"
  let ?res = "linesLoop L r 0 ?lines False []"
  show m: "\<not> fst (snd ?res)"
  proof -
    have "fst (processCommentLine L r (?lines ! j)) = ?lines ! j"
      if "j < length ?lines" "Contains (?lines ! j) ''//''" for j
    proof -
      from that assms(2) have "noBoundPlaceholder r (?lines ! j)" by simp
      then show ?thesis by (rule processCommentLine_unbound)
    qed
    then show ?thesis by (auto simp: linesLoop_modified)
  qed
  with assms(1) show "replaceVariablesInComments L r w filename
      = Inr (w\<lparr>stdout := stdout w @ snd (snd ?res)\<rparr>)"
    by (simp add: replaceVariablesInComments_def ReadFile_def Let_def split_beta)
  from m show "fst ?res = ?lines" by (rule linesLoop_unmodified)
qed

text \<open>
  Claim C10.  A line of the file without \<^verbatim>\<open>//\<close> in it is left as it is, whatever the
  table holds and whatever the line looks like: the loop returns as many lines as it was
  given, and at the index of such a line the same line; and when the run succeeds the
  file consists of the lines the loop returned, joined by line breaks.
\<close>

theorem lines_without_comment_marker_unchanged:
  assumes "files w filename = Some content"
  shows "length (fst (linesLoop L r 0 (Split content newline) False [])) = length (Split content newline)
       \<and> (\<forall>j<length (Split content newline). \<not> Contains (Split content newline ! j) ''//''
            \<longrightarrow> fst (linesLoop L r 0 (Split content newline) False []) ! j = Split content newline ! j)
       \<and> (\<forall>w'. replaceVariablesInComments L r w filename = Inr w'
            \<longrightarrow> files w' filename
                  = Some (Join (fst (linesLoop L r 0 (Split content newline) False [])) [newline]))"
proof (intro conjI allI impI)
  let ?lines = "Split content newline"
  let ?res = "linesLoop L r 0 ?lines False []"
  show "length (fst ?res) = length ?lines" by (rule linesLoop_length)
  show "fst ?res ! j = ?lines ! j" if "j < length ?lines" "\<not> Contains (?lines ! j) ''//''" for j
    using that by (simp add: linesLoop_nth)
  show "files w' filename = Some (Join (fst ?res) [newline])"
    if run: "replaceVariablesInComments L r w filename = Inr w'" for w'
  proof (cases "fst (snd ?res)")
    case True
    with run assms show ?thesis
      by (auto simp: replaceVariablesInComments_def ReadFile_def WriteFile_def Let_def
               split_beta split: if_splits)
  next
    case False
    then have "fst ?res = ?lines" by (rule linesLoop_unmodified)
    with False run assms show ?thesis
      by (auto simp: replaceVariablesInComments_def ReadFile_def Let_def split_beta Join_Split)
  qed
qed

text \<open>
  The first line has the placeholder of a bound name but no \<^verbatim>\<open>//\<close>, and stays; the
  second line is rewritten.
\<close>

theorem lines_without_comment_marker_unchanged_witness:
  "fst (linesLoop noLib (NewSwaggerVariableReplacer\<lparr>constants := [''A'' \<mapsto> IntVal 7]\<rparr>) 0
          (Split (''x := {{A}}'' @ [newline] @ ''// {{A}}'') newline) False []) ! 0
     = ''x := {{A}}''
   \<and> replaceVariablesInComments noLib (NewSwaggerVariableReplacer\<lparr>constants := [''A'' \<mapsto> IntVal 7]\<rparr>)
       (oneFile ''a.go'' (''x := {{A}}'' @ [newline] @ ''// {{A}}'')) ''a.go''
     = Inr ((oneFile ''a.go'' (''x := {{A}}'' @ [newline] @ ''// {{A}}''))
         \<lparr>files := [''a.go'' \<mapsto> ''x := {{A}}'' @ [newline] @ ''// 7''],
          written := [(''a.go'', ''x := {{A}}'' @ [newline] @ ''// 7'')],
          stdout := [''Replaced: // {{A}}'' @ [newline], ''    With: // 7'' @ [newline]]\<rparr>)"
proof -
  let ?content = "''x := {{A}}'' @ [newline] @ ''// {{A}}''"
  let ?r = "NewSwaggerVariableReplacer\<lparr>constants := [''A'' \<mapsto> IntVal 7]\<rparr> :: unit SwaggerVariableReplacer"
  have f: "files (oneFile ''a.go'' ?content) ''a.go'' = Some ?content"
    by (simp add: oneFile_def)
  have s: "Split ?content newline = [''x := {{A}}'', ''// {{A}}'']"
    by simp
  have c: "\<not> Contains (Split ?content newline ! 0) ''//''"
    unfolding s by (simp add: HasPrefix_def)
  have l: "0 < length (Split ?content newline)"
    unfolding s by simp
  have ll: "linesLoop noLib ?r 0 [''x := {{A}}'', ''// {{A}}''] False []
        = ([''x := {{A}}'', ''// 7''], True,
           [''Replaced: // {{A}}'' @ [newline], ''    With: // 7'' @ [newline]])"
    by code_simp
  have run: "replaceVariablesInComments noLib ?r (oneFile ''a.go'' ?content) ''a.go''
     = Inr ((oneFile ''a.go'' ?content)
         \<lparr>files := [''a.go'' \<mapsto> ''x := {{A}}'' @ [newline] @ ''// 7''],
          written := [(''a.go'', ''x := {{A}}'' @ [newline] @ ''// 7'')],
          stdout := [''Replaced: // {{A}}'' @ [newline], ''    With: // 7'' @ [newline]]\<rparr>)"
    using ll by (simp add: replaceVariablesInComments_def ReadFile_def WriteFile_def oneFile_def)
  note T = lines_without_comment_marker_unchanged [OF f, of noLib ?r]
  from T l c have 1: "fst (linesLoop noLib ?r 0 (Split ?content newline) False []) ! 0
      = Split ?content newline ! 0"
    by blast
  from 1 run show ?thesis unfolding s by simp
qed

text \<open>
  Claim C5.  When no line of the file with \<^verbatim>\<open>//\<close> in it has a placeholder, of any of
  the patterns, whose name has an entry in the table, the run succeeds, the file system
  is what it was, and \<^verbatim>\<open>os.WriteFile\<close> is not called: the only effect is what was
  printed (the warnings).
\<close>

theorem no_bound_placeholder_no_write:
  assumes "files w filename = Some content"
    and "\<forall>line\<in>set (Split content newline). Contains line ''//'' \<longrightarrow> noBoundPlaceholder r line"
  shows "\<exists>w'. replaceVariablesInComments L r w filename = Inr w'
            \<and> files w' = files w \<and> written w' = written w
            \<and> w' = w\<lparr>stdout := stdout w
                        @ snd (snd (linesLoop L r 0 (Split content newline) False []))\<rparr>"
  using rewrite_without_bound_placeholder(1) [OF assms] by simp

text \<open>
  The only placeholder in a line with \<^verbatim>\<open>//\<close> is \<^verbatim>\<open>{{B}}\<close>, which is not bound: nothing
  is written, and a warning is printed.
\<close>

theorem no_bound_placeholder_no_write_witness:
  "replaceVariablesInComments noLib (NewSwaggerVariableReplacer\<lparr>constants := [''A'' \<mapsto> IntVal 7]\<rparr>)
       (oneFile ''a.go'' (''x := {{A}}'' @ [newline] @ ''// {{B}} done'')) ''a.go''
     = Inr ((oneFile ''a.go'' (''x := {{A}}'' @ [newline] @ ''// {{B}} done''))
              \<lparr>stdout := [warning ''B'']\<rparr>)"
proof -
  let ?content = "''x := {{A}}'' @ [newline] @ ''// {{B}} done''"
  let ?r = "NewSwaggerVariableReplacer\<lparr>constants := [''A'' \<mapsto> IntVal 7]\<rparr> :: unit SwaggerVariableReplacer"
  have f: "files (oneFile ''a.go'' ?content) ''a.go'' = Some ?content"
    by (simp add: oneFile_def)
  have h: "\<forall>line\<in>set (Split ?content newline). Contains line ''//'' \<longrightarrow> noBoundPlaceholder ?r line"
    by code_simp
  have o: "snd (snd (linesLoop noLib ?r 0 (Split ?content newline) False [])) = [warning ''B'']"
    by code_simp
  from no_bound_placeholder_no_write [OF f h, of noLib] show ?thesis
    unfolding o by (simp add: oneFile_def)
qed

section \<open>Extraction: string literals of several lines\<close>

lemma Contains_single: "Contains s [c] \<longleftrightarrow> c \<in> set s"
  by (induction s) (auto simp: HasPrefix_def)

lemma Split_no_sep: "c \<notin> set s \<Longrightarrow> Split s c = [s]"
  by (induction s) auto

lemma Split_append_sep: "c \<notin> set l \<Longrightarrow> Split (l @ c # s) c = l # Split s c"
  by (induction l) auto

lemma Split_elems: "l \<in> set (Split s c) \<Longrightarrow> c \<notin> set l"
proof (induction s arbitrary: l)
  case Nil
  then show ?case by simp
next
  case (Cons x xs)
  then show ?case
    by (cases "Split xs c") (auto split: if_splits)
qed

lemma Split_Join:
  "ls \<noteq> [] \<Longrightarrow> \<forall>l\<in>set ls. c \<notin> set l \<Longrightarrow> Split (Join ls [c]) c = ls"
proof (induction ls)
  case Nil
  then show ?case by simp
next
  case (Cons x xs)
  show ?case
  proof (cases xs)
    case Nil
    with Cons.prems show ?thesis by (simp add: Split_no_sep)
  next
    case (Cons y ys)
    with Cons.prems Cons.IH have "Split (Join xs [c]) c = xs" by simp
    with Cons Cons.prems show ?thesis by (simp add: Split_append_sep)
  qed
qed

lemma commentLoop_eq:
  "i \<le> length ls \<Longrightarrow> commentLoop i ls = take i ls @ map ((@) ''// '') (drop i ls)"
proof (induction i ls rule: commentLoop.induct)
  case (1 i lines)
  show ?case
  proof (cases "i < length lines")
    case False
    with "1.prems" show ?thesis by (subst commentLoop.simps) simp
  next
    case True
    let ?ls = "lines[i := ''// '' @ lines ! i]"
    from True have "commentLoop i lines = commentLoop (Suc i) ?ls"
      by (subst commentLoop.simps) simp
    also from True "1.IH" have "\<dots> = take (Suc i) ?ls @ map ((@) ''// '') (drop (Suc i) ?ls)"
      by simp
    also from True have "take (Suc i) ?ls = take i lines @ [''// '' @ lines ! i]"
      by (simp add: take_Suc_conv_app_nth)
    also have "drop (Suc i) ?ls = drop (Suc i) lines" by simp
    finally show ?thesis using True by (simp add: Cons_nth_drop_Suc [symmetric])
  qed
qed

lemma extractValue_string:
  assumes "v \<noteq> []"
  shows "\<exists>str'. extractValue L (BasicLit token_STRING v) = Inr (Some (StringVal str'))
           \<and> Split str' newline
               = hd (Split (unquoted v) newline) # map ((@) ''// '') (tl (Split (unquoted v) newline))"
proof (cases "Contains (unquoted v) [newline]")
  case False
  then have "newline \<notin> set (unquoted v)" by (simp add: Contains_single)
  then have "Split (unquoted v) newline = [unquoted v]" by (rule Split_no_sep)
  with False assms show ?thesis by (simp add: unquoted_def)
next
  case True
  let ?ls = "Split (unquoted v) newline"
  obtain l ls where s: "?ls = l # ls"
    using Split_not_Nil [of "unquoted v" newline] by (cases ?ls) auto
  then have c: "commentLoop 1 ?ls = l # map ((@) ''// '') ls"
    by (simp add: commentLoop_eq)
  have "\<forall>x\<in>set (l # map ((@) ''// '') ls). newline \<notin> set x"
  proof
    fix x assume "x \<in> set (l # map ((@) ''// '') ls)"
    then consider "x = l" | y where "y \<in> set ls" "x = ''// '' @ y" by auto
    then show "newline \<notin> set x"
    proof cases
      case 1
      with s Split_elems [of l "unquoted v" newline] show ?thesis by simp
    next
      case 2
      with s Split_elems [of y "unquoted v" newline] show ?thesis by simp
    qed
  qed
  then have "Split (Join (l # map ((@) ''// '') ls) [newline]) newline = l # map ((@) ''// '') ls"
    by (intro Split_Join) simp_all
  with True assms c s show ?thesis by (simp add: unquoted_def Let_def)
qed


text \<open>
  Claim C2, as amended.  A string literal is resolved to the text between its quotes with
  \<^verbatim>\<open>"// "\<close> put before every line but the first: the lines of the value are the lines
  of that text, the first as it is and each other one after \<^verbatim>\<open>"// "\<close>.  This is done at
  extraction; where a placeholder of a name bound to the value is matched, the matched
  text is replaced by the value as it is stored.  The line breaks are those of the source
  text of the literal, so of a raw literal between back quotes; the escape sequence
  \<^verbatim>\<open>\n\<close> of an interpreted literal is not decoded and is no line break.
\<close>

theorem multiline_string_value_prefixed:
  assumes "v \<noteq> []"
  shows "\<exists>str'. extractValue L (BasicLit token_STRING v) = Inr (Some (StringVal str'))
           \<and> Split str' newline
               = hd (Split (unquoted v) newline) # map ((@) ''// '') (tl (Split (unquoted v) newline))
           \<and> (\<forall>p line m X rest.
                 matchAt p line = Some (m, X, rest) \<and> constants r X = Some (StringVal str')
                 \<longrightarrow> fst (ReplaceAllStringFunc p (replaceFunc L r p) line)
                       = str' @ fst (ReplaceAllStringFunc p (replaceFunc L r p) rest))"
proof -
  from extractValue_string [OF assms, of L] obtain str'
    where 1: "extractValue L (BasicLit token_STRING v) = Inr (Some (StringVal str'))"
      and 2: "Split str' newline
               = hd (Split (unquoted v) newline) # map ((@) ''// '') (tl (Split (unquoted v) newline))"
    by blast
  have "fst (ReplaceAllStringFunc p (replaceFunc L r p) line)
          = str' @ fst (ReplaceAllStringFunc p (replaceFunc L r p) rest)"
    if "matchAt p line = Some (m, X, rest)" "constants r X = Some (StringVal str')"
    for p line m X rest
    using that by (simp add: Replace_match(1) [OF that(1)] replaceFunc_match [OF that(1)])
  with 1 2 show ?thesis by blast
qed

text \<open>
  The raw literal of the two lines \<^verbatim>\<open>line1\<close> and \<^verbatim>\<open>line2\<close>, bound to \<^verbatim>\<open>X\<close>: the line
  \<^verbatim>\<open>// {{X}}\<close> becomes \<^verbatim>\<open>// line1\<close>, a line break and \<^verbatim>\<open>// line2\<close>.
\<close>

theorem multiline_string_value_prefixed_witness:
  "extractValue noLib (BasicLit token_STRING (backquote # ''line1'' @ [newline] @ ''line2'' @ [backquote]))
     = Inr (Some (StringVal (''line1'' @ [newline] @ ''// line2'')))
   \<and> processCommentLine noLib
        (NewSwaggerVariableReplacer
           \<lparr>constants := [''X'' \<mapsto> StringVal (''line1'' @ [newline] @ ''// line2'')]\<rparr>)
        ''// {{X}}''
     = (''// line1'' @ [newline] @ ''// line2'', [])"
proof -
  let ?v = "backquote # ''line1'' @ [newline] @ ''line2'' @ [backquote]"
  have v: "?v \<noteq> []" by simp
  from multiline_string_value_prefixed [OF v, of noLib] obtain str'
    where 1: "extractValue noLib (BasicLit token_STRING ?v) = Inr (Some (StringVal str'))"
      and 2: "Split str' newline
               = hd (Split (unquoted ?v) newline) # map ((@) ''// '') (tl (Split (unquoted ?v) newline))"
    by blast
  have "Split (unquoted ?v) newline = [''line1'', ''line2'']"
    by code_simp
  with 2 have "Split str' newline = [''line1'', ''// line2'']" by simp
  then have "Join (Split str' newline) [newline] = ''line1'' @ [newline] @ ''// line2''" by simp
  then have "str' = ''line1'' @ [newline] @ ''// line2''" by (simp only: Join_Split)
  with 1 have a: "extractValue noLib (BasicLit token_STRING ?v)
     = Inr (Some (StringVal (''line1'' @ [newline] @ ''// line2'')))" by simp
  have b: "processCommentLine noLib
        (NewSwaggerVariableReplacer
           \<lparr>constants := [''X'' \<mapsto> StringVal (''line1'' @ [newline] @ ''// line2'')]\<rparr>)
        ''// {{X}}''
     = (''// line1'' @ [newline] @ ''// line2'', [])"
    by code_simp
  from a b show ?thesis by (rule conjI)
qed

text \<open>
  Claim C2 as stated fails for the literal it names, \<^verbatim>\<open>"line1\nline2"\<close>: its source text
  has a backslash and an \<^verbatim>\<open>n\<close>, no line break, and that is what is stored and put in.
\<close>

theorem escaped_newline_counterexample:
  "extractValue noLib
     (BasicLit token_STRING (dquote # ''line1'' @ [CHR 0x5C] @ ''nline2'' @ [dquote]))
     = Inr (Some (StringVal (''line1'' @ [CHR 0x5C] @ ''nline2'')))
   \<and> fst (processCommentLine noLib
        (NewSwaggerVariableReplacer
           \<lparr>constants := [''X'' \<mapsto> StringVal (''line1'' @ [CHR 0x5C] @ ''nline2'')]\<rparr>)
        ''// {{X}}'')
     = ''// line1'' @ [CHR 0x5C] @ ''nline2''
   \<and> ''// line1'' @ [CHR 0x5C] @ ''nline2'' \<noteq> ''// line1'' @ [newline] @ ''// line2''"
  by code_simp


section \<open>Directory mode\<close>

lemma simulates_return: "simulates Inr"
  by (simp add: simulates_def)

lemma simulates_bind:
  fixes f g :: "'f SwaggerVariableReplacer \<Rightarrow> error + 'f SwaggerVariableReplacer"
  assumes "simulates f" and "simulates g"
  shows "simulates (\<lambda>r. case f r of Inl e \<Rightarrow> Inl e | Inr r' \<Rightarrow> g r')"
  unfolding simulates_def
proof (intro allI impI)
  fix c0 and r0 r1 :: "'f SwaggerVariableReplacer"
  assume e: "extends c0 r0 r1"
  show "case (case f r0 of Inl e \<Rightarrow> Inl e | Inr r' \<Rightarrow> g r') of
          Inl e \<Rightarrow> (case f r1 of Inl e \<Rightarrow> Inl e | Inr r' \<Rightarrow> g r') = Inl e
        | Inr r0' \<Rightarrow> \<exists>r1'. (case f r1 of Inl e \<Rightarrow> Inl e | Inr r' \<Rightarrow> g r') = Inr r1' \<and> extends c0 r0' r1'"
  proof (cases "f r0")
    case (Inl a)
    with assms(1) e show ?thesis by (auto simp: simulates_def split: sum.splits)
  next
    case (Inr r0')
    with assms(1) e obtain r1' where 1: "f r1 = Inr r1'" "extends c0 r0' r1'"
      by (fastforce simp: simulates_def split: sum.splits)
    from assms(2) 1(2) have "case g r0' of Inl e \<Rightarrow> g r1' = Inl e
        | Inr r0'' \<Rightarrow> \<exists>r1''. g r1' = Inr r1'' \<and> extends c0 r0'' r1''"
      by (simp add: simulates_def)
    with Inr 1(1) show ?thesis by (simp split: sum.splits)
  qed
qed

lemma simulates_if:
  "simulates f \<Longrightarrow> simulates g \<Longrightarrow> simulates (\<lambda>r. if c then f r else g r)"
  by (cases c) simp_all

lemma simulates_bindName: "simulates (\<lambda>r. bindName L r i name vals)"
  by (auto simp: simulates_def bindName_def extends_def split: sum.splits option.splits)

lemma simulates_namesLoop: "simulates (\<lambda>r. namesLoop L r i names vals)"
proof (induction names arbitrary: i)
  case Nil
  show ?case by (simp add: simulates_return)
next
  case (Cons name names)
  from simulates_bind [OF simulates_bindName Cons [of "Suc i"], of L i name vals]
  show ?case by simp
qed

lemma simulates_specsLoop: "simulates (\<lambda>r. specsLoop L r specs)"
proof (induction specs)
  case Nil
  show ?case by (simp add: simulates_return)
next
  case (Cons spec specs)
  have "simulates (\<lambda>r. case spec of ValueSpec names ty vals \<Rightarrow> namesLoop L r 0 names vals | _ \<Rightarrow> Inr r)"
    by (cases spec) (simp_all add: simulates_return simulates_namesLoop)
  from simulates_bind [OF this Cons] show ?case by simp
qed

lemma simulates_visit: "simulates (visit L n)"
proof -
  have "simulates (\<lambda>r. visit L n r)"
    unfolding visit_def
    by (cases n) (simp_all add: simulates_return simulates_namesLoop simulates_specsLoop simulates_if)
  then show ?thesis .
qed

lemma simulates_visitAll: "simulates (visitAll (visit L) ns)"
proof (induction ns)
  case Nil
  have "simulates (\<lambda>r. visitAll (visit L) [] r)" by (simp add: simulates_return)
  then show ?case .
next
  case (Cons n ns)
  from simulates_bind [OF simulates_visit Cons, of L n]
  have "simulates (\<lambda>r. visitAll (visit L) (n # ns) r)" by simp
  then show ?case .
qed

lemma simulates_extractNode: "simulates (extractNode L n)"
proof -
  have "extractNode L n = visitAll (visit L) (preorder n)"
    by (rule ext) (simp add: extractNode_def Inspect_preorder(1) del: Inspect.simps preorder.simps)
  then show ?thesis by (simp add: simulates_visitAll del: preorder.simps)
qed

lemma extractNode_dom:
  assumes "extractNode L n r = Inr r'" and "constants r0 = Map.empty"
    and "extractNode L n r0 = Inr r0'"
  shows "dom (constants r0') \<subseteq> dom (constants r')" and "dom (constants r) \<subseteq> dom (constants r')"
proof -
  have "extends (constants r) r0 r" using assms(2) by (simp add: extends_def)
  with simulates_extractNode [of L n] assms(3) obtain r1'
    where "extractNode L n r = Inr r1'" "extends (constants r) r0' r1'"
    by (fastforce simp: simulates_def split: sum.splits)
  with assms(1) have "constants r' = constants r ++ constants r0'" by (simp add: extends_def)
  then show "dom (constants r0') \<subseteq> dom (constants r')" and "dom (constants r) \<subseteq> dom (constants r')"
    by auto
qed


lemma extractNode_from_empty:
  assumes "extractNode L n r = Inr r'" and "constants r0 = Map.empty"
  shows "\<exists>r0'. extractNode L n r0 = Inr r0' \<and> constants r' = constants r ++ constants r0'
           \<and> dom (constants r0') \<subseteq> dom (constants r') \<and> dom (constants r) \<subseteq> dom (constants r')"
proof -
  have "extends (constants r) r0 r" using assms(2) by (simp add: extends_def)
  with simulates_extractNode [of L n]
  have c: "case extractNode L n r0 of
          Inl e \<Rightarrow> extractNode L n r = Inl e
        | Inr r0' \<Rightarrow> (\<exists>r1'. extractNode L n r = Inr r1' \<and> extends (constants r) r0' r1')"
    unfolding simulates_def by blast
  show ?thesis
  proof (cases "extractNode L n r0")
    case (Inl e)
    with c assms(1) show ?thesis by simp
  next
    case (Inr r0')
    with c assms(1) have eq: "constants r' = constants r ++ constants r0'"
      by (simp add: extends_def)
    then have "dom (constants r') = dom (constants r0') \<union> dom (constants r)" by simp
    with Inr eq show ?thesis by blast
  qed
qed

lemma extractFn_result:
  assumes "extractFn L path err (r, w) = Inr (r', w')"
  shows "files w' = files w" and "written w' = written w" and "readonly w' = readonly w"
    and "tree w' = tree w" and "dom (constants r) \<subseteq> dom (constants r')"
    and "eligible path \<Longrightarrow>
           \<exists>content n. files w path = Some content \<and> ParseFile L content = Inr n
             \<and> (\<forall>r0 r0'. constants r0 = Map.empty \<and> extractNode L n r0 = Inr r0'
                   \<longrightarrow> dom (constants r0') \<subseteq> dom (constants r'))"
proof -
  from assms have err: "err = None" by (cases err) (simp_all add: extractFn_def)
  show "files w' = files w" "written w' = written w" "readonly w' = readonly w" "tree w' = tree w"
    using assms err
    by (auto simp: extractFn_def Printf_def Let_def split: if_splits sum.splits)
  show el: "\<exists>content n. files w path = Some content \<and> ParseFile L content = Inr n
             \<and> (\<forall>r0 r0'. constants r0 = Map.empty \<and> extractNode L n r0 = Inr r0'
                   \<longrightarrow> dom (constants r0') \<subseteq> dom (constants r'))" if "eligible path"
  proof -
    from assms err that obtain content n where c: "files w path = Some content"
      and p: "ParseFile L content = Inr n" and e: "extractNode L n r = Inr r'"
      by (auto simp: extractFn_def Printf_def Let_def extractConstants_def ReadFile_def
               split: if_splits sum.splits option.splits)
    have "dom (constants r0') \<subseteq> dom (constants r')"
      if "constants r0 = Map.empty \<and> extractNode L n r0 = Inr r0'" for r0 r0'
      using extractNode_from_empty [OF e, of r0] that by auto
    with c p show ?thesis by blast
  qed
  show "dom (constants r) \<subseteq> dom (constants r')"
  proof (cases "eligible path")
    case False
    with assms err show ?thesis by (simp add: extractFn_def)
  next
    case True
    with assms err obtain n where e: "extractNode L n r = Inr r'"
      by (auto simp: extractFn_def Printf_def Let_def extractConstants_def ReadFile_def
               split: if_splits sum.splits option.splits)
    from extractNode_from_empty [OF e, of "r\<lparr>constants := Map.empty\<rparr>"] show ?thesis by auto
  qed
qed

lemma Walk_extract:
  assumes "Walk es (extractFn L) (r, w) = Inr (r', w')"
  shows "files w' = files w \<and> written w' = written w \<and> readonly w' = readonly w
       \<and> tree w' = tree w \<and> dom (constants r) \<subseteq> dom (constants r')
       \<and> (\<forall>A err. (A, err) \<in> set es \<and> eligible A \<longrightarrow>
             (\<exists>content n. files w A = Some content \<and> ParseFile L content = Inr n
                \<and> (\<forall>r0 r0'. constants r0 = Map.empty \<and> extractNode L n r0 = Inr r0'
                      \<longrightarrow> dom (constants r0') \<subseteq> dom (constants r'))))"
  using assms
proof (induction es arbitrary: r w)
  case Nil
  then show ?case by simp
next
  case (Cons e es)
  obtain path err where e: "e = (path, err)" by (cases e)
  with Cons.prems obtain r1 w1 where step: "extractFn L path err (r, w) = Inr (r1, w1)"
    and rest: "Walk es (extractFn L) (r1, w1) = Inr (r', w')"
    by (auto split: sum.splits)
  note s = extractFn_result [OF step]
  note IH = Cons.IH [OF rest]
  have el: "\<exists>content n. files w A = Some content \<and> ParseFile L content = Inr n
                \<and> (\<forall>r0 r0'. constants r0 = Map.empty \<and> extractNode L n r0 = Inr r0'
                      \<longrightarrow> dom (constants r0') \<subseteq> dom (constants r'))"
    if "(A, errA) \<in> set (e # es) \<and> eligible A" for A errA
  proof (cases "(A, errA) \<in> set es")
    case True
    with that IH have "\<exists>content n. files w1 A = Some content \<and> ParseFile L content = Inr n
                \<and> (\<forall>r0 r0'. constants r0 = Map.empty \<and> extractNode L n r0 = Inr r0'
                      \<longrightarrow> dom (constants r0') \<subseteq> dom (constants r'))"
      by blast
    with s(1) show ?thesis by simp
  next
    case False
    with that e have A: "A = path" "eligible path" by auto
    from s(6) [OF A(2)] obtain content n where c: "files w path = Some content"
      "ParseFile L content = Inr n"
      and d: "\<forall>r0 r0'. constants r0 = Map.empty \<and> extractNode L n r0 = Inr r0'
                   \<longrightarrow> dom (constants r0') \<subseteq> dom (constants r1)"
      by blast
    from IH have "dom (constants r1) \<subseteq> dom (constants r')" by simp
    with d have "\<forall>r0 r0'. constants r0 = Map.empty \<and> extractNode L n r0 = Inr r0'
                   \<longrightarrow> dom (constants r0') \<subseteq> dom (constants r')"
      by blast
    with c A show ?thesis by blast
  qed
  from s(1) IH have 1: "files w' = files w" by simp
  from s(2) IH have 2: "written w' = written w" by simp
  from s(3) IH have 3: "readonly w' = readonly w" by simp
  from s(4) IH have 4: "tree w' = tree w" by simp
  from IH have "dom (constants r1) \<subseteq> dom (constants r')" by simp
  with s(5) have 5: "dom (constants r) \<subseteq> dom (constants r')" by (rule subset_trans)
  from 1 2 3 4 5 el show ?case by blast
qed


lemma replaceVariablesInComments_files:
  assumes "replaceVariablesInComments L r w filename = Inr w'"
  shows "\<exists>content. files w filename = Some content
           \<and> files w' filename
               = Some (Join (fst (linesLoop L r 0 (Split content newline) False [])) [newline])"
    and "g \<noteq> filename \<Longrightarrow> files w' g = files w g"
    and "tree w' = tree w"
proof -
  from assms obtain content where c: "files w filename = Some content"
    by (auto simp: replaceVariablesInComments_def ReadFile_def split: option.splits)
  let ?res = "linesLoop L r 0 (Split content newline) False []"
  show "g \<noteq> filename \<Longrightarrow> files w' g = files w g"
    using assms c
    by (auto simp: replaceVariablesInComments_def ReadFile_def WriteFile_def Let_def split_beta
             split: if_splits)
  show "tree w' = tree w"
    using assms c
    by (auto simp: replaceVariablesInComments_def ReadFile_def WriteFile_def Let_def split_beta
             split: if_splits)
  have "files w' filename = Some (Join (fst ?res) [newline])"
  proof (cases "fst (snd ?res)")
    case True
    with assms c show ?thesis
      by (auto simp: replaceVariablesInComments_def ReadFile_def WriteFile_def Let_def
               split_beta split: if_splits)
  next
    case False
    then have "fst ?res = Split content newline" by (rule linesLoop_unmodified)
    with False assms c show ?thesis
      by (auto simp: replaceVariablesInComments_def ReadFile_def Let_def split_beta Join_Split)
  qed
  with c show "\<exists>content. files w filename = Some content
           \<and> files w' filename
               = Some (Join (fst (linesLoop L r 0 (Split content newline) False [])) [newline])"
    by blast
qed

lemma replaceFn_result:
  assumes "replaceFn L path err (r, w) = Inr (r', w')"
  shows "r' = r" and "tree w' = tree w"
    and "g \<noteq> path \<Longrightarrow> files w' g = files w g"
    and "eligible path \<Longrightarrow>
           \<exists>content. files w path = Some content
             \<and> files w' path
                 = Some (Join (fst (linesLoop L r 0 (Split content newline) False [])) [newline])"
proof -
  from assms have err: "err = None" by (cases err) (simp_all add: replaceFn_def)
  show "r' = r"
    using assms err by (auto simp: replaceFn_def Let_def split: if_splits sum.splits)
  let ?w = "Printf (''Processing: '' @ path @ [newline]) w"
  have pf: "files ?w = files w" "tree ?w = tree w" by (simp_all add: Printf_def)
  show "tree w' = tree w"
  proof (cases "eligible path")
    case False
    with assms err show ?thesis by (simp add: replaceFn_def)
  next
    case True
    with assms err have "replaceVariablesInComments L r ?w path = Inr w'"
      by (auto simp: replaceFn_def Let_def split: sum.splits)
    from replaceVariablesInComments_files(3) [OF this] pf show ?thesis by simp
  qed
  show "files w' g = files w g" if "g \<noteq> path"
  proof (cases "eligible path")
    case False
    with assms err show ?thesis by (simp add: replaceFn_def)
  next
    case True
    with assms err have "replaceVariablesInComments L r ?w path = Inr w'"
      by (auto simp: replaceFn_def Let_def split: sum.splits)
    from replaceVariablesInComments_files(2) [OF this that] pf show ?thesis by simp
  qed
  show "\<exists>content. files w path = Some content
             \<and> files w' path
                 = Some (Join (fst (linesLoop L r 0 (Split content newline) False [])) [newline])"
    if "eligible path"
  proof -
    from that assms err have "replaceVariablesInComments L r ?w path = Inr w'"
      by (auto simp: replaceFn_def Let_def split: sum.splits)
    from replaceVariablesInComments_files(1) [OF this] pf show ?thesis by simp
  qed
qed

lemma Walk_replace:
  assumes "Walk es (replaceFn L) (r, w) = Inr (r', w')"
  shows "r' = r \<and> tree w' = tree w
       \<and> (\<forall>g. g \<notin> fst ` set es \<longrightarrow> files w' g = files w g)
       \<and> (distinct (map fst es) \<longrightarrow>
            (\<forall>B err. (B, err) \<in> set es \<and> eligible B \<longrightarrow>
               (\<exists>content. files w B = Some content
                  \<and> files w' B
                      = Some (Join (fst (linesLoop L r 0 (Split content newline) False []))
                                [newline]))))"
  using assms
proof (induction es arbitrary: w)
  case Nil
  then show ?case by simp
next
  case (Cons e es)
  obtain path err where e: "e = (path, err)" by (cases e)
  with Cons.prems obtain r1 w1 where step: "replaceFn L path err (r, w) = Inr (r1, w1)"
    and rest: "Walk es (replaceFn L) (r1, w1) = Inr (r', w')"
    by (auto split: sum.splits)
  note s = replaceFn_result [OF step]
  from rest s(1) have rest': "Walk es (replaceFn L) (r, w1) = Inr (r', w')" by simp
  note IH = Cons.IH [OF rest']
  from IH have 1: "r' = r" by simp
  from IH s(2) have 2: "tree w' = tree w" by simp
  have 3: "files w' g = files w g" if "g \<notin> fst ` set (e # es)" for g
  proof -
    from that e have "g \<noteq> path" "g \<notin> fst ` set es" by auto
    with IH s(3) [of g] show ?thesis by simp
  qed
  have 4: "\<exists>content. files w B = Some content
                  \<and> files w' B
                      = Some (Join (fst (linesLoop L r 0 (Split content newline) False []))
                                [newline])"
    if d: "distinct (map fst (e # es))" and B: "(B, errB) \<in> set (e # es) \<and> eligible B" for B errB
  proof (cases "B = path")
    case True
    with d e have "B \<notin> fst ` set es" by auto
    with IH have "files w' B = files w1 B" by simp
    with s(4) True B show ?thesis by simp
  next
    case False
    with B e have "(B, errB) \<in> set es" by auto
    with IH d B have "\<exists>content. files w1 B = Some content
                  \<and> files w' B
                      = Some (Join (fst (linesLoop L r 0 (Split content newline) False []))
                                [newline])"
      by auto
    with s(3) [OF False] show ?thesis by simp
  qed
  from 1 2 3 4 show ?case by blast
qed

text \<open>
  Claim C8.  When \<^verbatim>\<open>ProcessDirectory\<close> succeeds on a directory whose walk lists every path
  once, the walk that extracts has run over all entries, writing no file, before the walk
  that rewrites starts, and the table \<open>r'\<close> it ends with is the table every file is
  rewritten with.  So for eligible files \<open>A\<close> and \<open>B\<close> of the walk, in either order: every
  name that the declarations of \<open>A\<close> bind (extracting from \<open>A\<close> alone, with an empty table)
  is bound in \<open>r'\<close>, and the content of \<open>B\<close> after the run is its lines rewritten with
  \<open>r'\<close>.
\<close>

theorem directory_extraction_before_rewriting:
  assumes "ProcessDirectory L (r, w) dir = Inr (r', w')"
    and "distinct (map fst (tree w dir))"
    and "(A, errA) \<in> set (tree w dir)" and "eligible A"
    and "(B, errB) \<in> set (tree w dir)" and "eligible B"
  shows "(\<exists>w1. Walk (tree w dir) (extractFn L) (r, w) = Inr (r', w1)
            \<and> files w1 = files w \<and> written w1 = written w
            \<and> Walk (tree w dir) (replaceFn L) (r', w1) = Inr (r', w'))
       \<and> (\<exists>contentA nodeA. files w A = Some contentA \<and> ParseFile L contentA = Inr nodeA
            \<and> (\<forall>r0 r0'. constants r0 = Map.empty \<and> extractNode L nodeA r0 = Inr r0'
                  \<longrightarrow> dom (constants r0') \<subseteq> dom (constants r')))
       \<and> (\<exists>contentB. files w B = Some contentB
            \<and> files w' B
                = Some (Join (fst (linesLoop L r' 0 (Split contentB newline) False []))
                          [newline]))"
proof -
  from assms(1) obtain r1 w1 where ex: "Walk (tree w dir) (extractFn L) (r, w) = Inr (r1, w1)"
    and rw: "Walk (tree w1 dir) (replaceFn L) (r1, w1) = Inr (r', w')"
    by (auto simp: ProcessDirectory_def split: sum.splits)
  note E = Walk_extract [OF ex]
  from E have t: "tree w1 = tree w" by simp
  with rw have rw': "Walk (tree w dir) (replaceFn L) (r1, w1) = Inr (r', w')" by simp
  note R = Walk_replace [OF rw']
  from R have r1: "r1 = r'" by simp
  from E assms(3,4) r1 have a: "\<exists>contentA nodeA. files w A = Some contentA
            \<and> ParseFile L contentA = Inr nodeA
            \<and> (\<forall>r0 r0'. constants r0 = Map.empty \<and> extractNode L nodeA r0 = Inr r0'
                  \<longrightarrow> dom (constants r0') \<subseteq> dom (constants r'))"
    by blast
  from R assms(2,5,6) r1 have "\<exists>contentB. files w1 B = Some contentB
            \<and> files w' B
                = Some (Join (fst (linesLoop L r' 0 (Split contentB newline) False []))
                          [newline])"
    by blast
  with E have b: "\<exists>contentB. files w B = Some contentB
            \<and> files w' B
                = Some (Join (fst (linesLoop L r' 0 (Split contentB newline) False []))
                          [newline])"
    by simp
  from ex rw' r1 E have c: "\<exists>w1. Walk (tree w dir) (extractFn L) (r, w) = Inr (r', w1)
            \<and> files w1 = files w \<and> written w1 = written w
            \<and> Walk (tree w dir) (replaceFn L) (r', w1) = Inr (r', w')"
    by auto
  from a b c show ?thesis by blast
qed


lemma Atoi_200: "Atoi ''200'' = Some 200"
  by (simp add: Atoi_def isDigit_def digitsVal_def digitVal_def)

lemma eligible_examples: "\<not> eligible ''d''" "eligible ''d/a.go''" "eligible ''d/b.go''"
  by (simp_all add: eligible_def HasSuffix_def)

lemma twoFiles_extract:
  "Walk (tree twoFiles ''d'') (extractFn twoFilesLib) (NewSwaggerVariableReplacer, twoFiles)
     = Inr (NewSwaggerVariableReplacer\<lparr>constants := [''X'' \<mapsto> IntVal 200]\<rparr>,
            twoFiles\<lparr>stdout := [''Processing: d/a.go'' @ [newline],
                                ''Processing: d/b.go'' @ [newline]]\<rparr>)"
proof -
  have t: "tree twoFiles ''d'' = [(''d'', None), (''d/a.go'', None), (''d/b.go'', None)]"
    by (simp add: twoFiles_def)
  have a: "extractConstants twoFilesLib r w ''d/a.go'' = Inr r" if "files w = files twoFiles" for r w
    using that by (simp add: extractConstants_def ReadFile_def twoFiles_def twoFilesLib_def
        extractNode_def visit_def)
  have b: "extractConstants twoFilesLib NewSwaggerVariableReplacer w ''d/b.go''
             = Inr (NewSwaggerVariableReplacer\<lparr>constants := [''X'' \<mapsto> IntVal 200]\<rparr>)"
    if "files w = files twoFiles" for w
    using that by (simp add: extractConstants_def ReadFile_def twoFiles_def twoFilesLib_def
        extractNode_def visit_def bindName_def Atoi_200 NewSwaggerVariableReplacer_def)
  have so: "stdout twoFiles = []" by (simp add: twoFiles_def)
  show ?thesis
    unfolding t
    by (simp add: extractFn_def eligible_examples Printf_def a b so)
qed

lemma twoFiles_run:
  "ProcessDirectory twoFilesLib (NewSwaggerVariableReplacer, twoFiles) ''d''
     = Inr (NewSwaggerVariableReplacer\<lparr>constants := [''X'' \<mapsto> IntVal 200]\<rparr>,
            twoFiles
              \<lparr>files := (files twoFiles)
                          (''d/a.go'' \<mapsto> ''package d'' @ [newline] @ ''// code 200''),
               written := [(''d/a.go'', ''package d'' @ [newline] @ ''// code 200'')],
               stdout := [''Processing: d/a.go'' @ [newline],
                          ''Processing: d/b.go'' @ [newline],
                          ''Processing: d/a.go'' @ [newline],
                          ''Replaced: // code {{X}}'' @ [newline],
                          ''    With: // code 200'' @ [newline],
                          ''Processing: d/b.go'' @ [newline]]\<rparr>)"
proof -
  let ?r = "NewSwaggerVariableReplacer\<lparr>constants := [''X'' \<mapsto> IntVal 200]\<rparr>
              :: unit SwaggerVariableReplacer"
  have t: "tree twoFiles ''d'' = [(''d'', None), (''d/a.go'', None), (''d/b.go'', None)]"
    by (simp add: twoFiles_def)
  have la: "linesLoop twoFilesLib ?r 0 [''package d'', ''// code {{X}}''] False []
            = ([''package d'', ''// code 200''], True,
               [''Replaced: // code {{X}}'' @ [newline], ''    With: // code 200'' @ [newline]])"
    by code_simp
  have lb: "linesLoop twoFilesLib ?r 0 [''package d'', ''const X = 200''] False []
            = ([''package d'', ''const X = 200''], False, [])"
    by code_simp
  let ?w1 = "twoFiles\<lparr>stdout := [''Processing: d/a.go'' @ [newline],
                                  ''Processing: d/b.go'' @ [newline]]\<rparr>"
  have fa: "files twoFiles ''d/a.go'' = Some (''package d'' @ [newline] @ ''// code {{X}}'')"
    and fb: "files twoFiles ''d/b.go'' = Some (''package d'' @ [newline] @ ''const X = 200'')"
    and ro: "readonly twoFiles = {}" and wr: "written twoFiles = []"
    by (simp_all add: twoFiles_def)
  have "ProcessDirectory twoFilesLib (NewSwaggerVariableReplacer, twoFiles) ''d''
          = Walk (tree twoFiles ''d'') (replaceFn twoFilesLib) (?r, ?w1)"
    by (simp add: ProcessDirectory_def twoFiles_extract)
  also have "\<dots> = Inr (?r, twoFiles
              \<lparr>files := (files twoFiles)
                          (''d/a.go'' \<mapsto> ''package d'' @ [newline] @ ''// code 200''),
               written := [(''d/a.go'', ''package d'' @ [newline] @ ''// code 200'')],
               stdout := [''Processing: d/a.go'' @ [newline],
                          ''Processing: d/b.go'' @ [newline],
                          ''Processing: d/a.go'' @ [newline],
                          ''Replaced: // code {{X}}'' @ [newline],
                          ''    With: // code 200'' @ [newline],
                          ''Processing: d/b.go'' @ [newline]]\<rparr>)"
    unfolding t
    by (simp add: replaceFn_def eligible_examples Printf_def replaceVariablesInComments_def
          ReadFile_def WriteFile_def la lb fa fb ro wr)
  finally show ?thesis .
qed

text \<open>
  The file \<^verbatim>\<open>d/a.go\<close> is walked before \<^verbatim>\<open>d/b.go\<close>, which declares \<^verbatim>\<open>X\<close>; the
  placeholder of \<^verbatim>\<open>d/a.go\<close> is resolved all the same.
\<close>

theorem directory_extraction_before_rewriting_witness:
  "ProcessDirectory twoFilesLib (NewSwaggerVariableReplacer, twoFiles) ''d''
     = Inr (NewSwaggerVariableReplacer\<lparr>constants := [''X'' \<mapsto> IntVal 200]\<rparr>,
            twoFiles
              \<lparr>files := (files twoFiles)
                          (''d/a.go'' \<mapsto> ''package d'' @ [newline] @ ''// code 200''),
               written := [(''d/a.go'', ''package d'' @ [newline] @ ''// code 200'')],
               stdout := [''Processing: d/a.go'' @ [newline],
                          ''Processing: d/b.go'' @ [newline],
                          ''Processing: d/a.go'' @ [newline],
                          ''Replaced: // code {{X}}'' @ [newline],
                          ''    With: // code 200'' @ [newline],
                          ''Processing: d/b.go'' @ [newline]]\<rparr>)
   \<and> (\<exists>w1. Walk (tree twoFiles ''d'') (extractFn twoFilesLib) (NewSwaggerVariableReplacer, twoFiles)
             = Inr (NewSwaggerVariableReplacer\<lparr>constants := [''X'' \<mapsto> IntVal 200]\<rparr>, w1)
           \<and> files w1 = files twoFiles \<and> written w1 = written twoFiles)"
proof -
  have d: "distinct (map fst (tree twoFiles ''d''))" by (simp add: twoFiles_def)
  have A: "(''d/b.go'', None) \<in> set (tree twoFiles ''d'')" by (simp add: twoFiles_def)
  have B: "(''d/a.go'', None) \<in> set (tree twoFiles ''d'')" by (simp add: twoFiles_def)
  from directory_extraction_before_rewriting
         [OF twoFiles_run d A eligible_examples(3) B eligible_examples(2)]
  have "\<exists>w1. Walk (tree twoFiles ''d'') (extractFn twoFilesLib) (NewSwaggerVariableReplacer, twoFiles)
             = Inr (NewSwaggerVariableReplacer\<lparr>constants := [''X'' \<mapsto> IntVal 200]\<rparr>, w1)
           \<and> files w1 = files twoFiles \<and> written w1 = written twoFiles"
    by blast
  with twoFiles_run show ?thesis by (rule conjI)
qed


section \<open>The rewriter: placeholders of names without a binding\<close>

lemma patterns_New: "patterns NewSwaggerVariableReplacer = knownPatterns"
  by (simp add: NewSwaggerVariableReplacer_def knownPatterns_def)

lemma three_patterns:
  "p \<in> set knownPatterns \<longleftrightarrow>
     p = Pattern ''{{'' ''}}'' \<or> p = Pattern ''${'' ''}'' \<or> p = Pattern ''@VAR('' '')''"
  by (auto simp: knownPatterns_def)

lemma special_not_ident:
  "\<not> isIdentChar CHR ''{''" "\<not> isIdentChar CHR ''}''" "\<not> isIdentChar CHR ''$''"
  "\<not> isIdentChar CHR ''@''" "\<not> isIdentChar CHR ''(''" "\<not> isIdentChar CHR '')''"
  by (simp_all add: isIdentChar_def isIdentStart_def isDigit_def)

lemma matchAt_placeholder:
  assumes "isIdent name" and "closer q \<noteq> []" and "\<not> isIdentChar (hd (closer q))"
  shows "matchAt q (placeholder q name @ b) = Some (placeholder q name, name, b)"
proof -
  from assms(2) obtain c cs where cl: "closer q = c # cs" by (cases "closer q") auto
  with assms(3) have c: "\<not> isIdentChar c" by simp
  from assms(1) have n: "name \<noteq> []" "isIdentStart (hd name)" "\<forall>x\<in>set name. isIdentChar x"
    by (simp_all add: isIdent_def)
  have tw: "takeWhile isIdentChar (name @ c # cs @ b) = name"
    using n(3) c by (simp add: takeWhile_tail)
  have dw: "dropWhile isIdentChar (name @ c # cs @ b) = c # cs @ b"
    using n(3) c by (simp add: dropWhile_append2)
  show ?thesis
    using n(1,2) by (simp add: matchAt_def placeholder_def HasPrefix_def cl tw dw)
qed

lemma append_straddle:
  assumes "xs @ ys = zs @ ws" and "xs \<noteq> []" and "length xs < length zs"
  shows "ys \<noteq> [] \<and> hd ys \<in> set (tl zs) \<and> (\<exists>u. zs = xs @ u \<and> u \<noteq> [] \<and> ys = u @ ws)"
proof -
  from assms(1,3) obtain u where u: "zs = xs @ u" "ys = u @ ws"
    by (auto simp: append_eq_append_conv2)
  with assms(3) have "u \<noteq> []" by auto
  with u assms(2) have "hd ys = hd u" "hd u \<in> set (tl zs)"
    by (cases xs; cases u; auto)+
  with u \<open>u \<noteq> []\<close> show ?thesis by auto
qed


lemma no_straddle:
  assumes p: "p \<in> set knownPatterns"
    and q: "q \<in> set knownPatterns"
    and n: "isIdent name" and a: "a \<noteq> []"
    and m: "matchAt p (a @ placeholder q name @ b) = Some (m', n', rest')"
  shows "\<exists>a''. rest' = a'' @ placeholder q name @ b \<and> length a'' < length a"
proof (cases "length m' \<le> length a")
  case True
  note d = matchAt_SomeD [OF m]
  from d(1) True obtain a'' where "a = m' @ a''" "rest' = a'' @ placeholder q name @ b"
    by (auto simp: append_eq_append_conv2)
  moreover from d(2,3) have "m' \<noteq> []" by simp
  ultimately show ?thesis by auto
next
  case False
  note d = matchAt_SomeD [OF m]
  let ?ph = "placeholder q name"
  from False have "length a < length m'" by simp
  from append_straddle [OF d(1) a this] obtain u
    where h: "hd (?ph @ b) \<in> set (tl m')" and u: "m' = a @ u" "u \<noteq> []" "?ph @ b = u @ rest'"
    by auto
  from q have "q = Pattern ''{{'' ''}}'' \<or> q = Pattern ''${'' ''}'' \<or> q = Pattern ''@VAR('' '')''"
    by (simp only: three_patterns)
  then have qne: "opener q \<noteq> []" "\<not> isIdentChar (hd (opener q))"
    by (elim disjE; simp add: special_not_ident)+
  then have hq: "hd (?ph @ b) = hd (opener q)" by (simp add: placeholder_def)
  from p have "p = Pattern ''{{'' ''}}'' \<or> p = Pattern ''${'' ''}'' \<or> p = Pattern ''@VAR('' '')''"
    by (simp only: three_patterns)
  then have pne: "opener p \<noteq> []" by (elim disjE) simp_all
  from h d(2) pne have "hd (opener q) \<in> set (tl (opener p)) \<union> set n' \<union> set (closer p)"
    unfolding hq by auto
  with d(4) qne(2) have in_op: "hd (opener q) \<in> set (tl (opener p)) \<union> set (closer p)"
    by auto
  have pq: "(p = Pattern ''{{'' ''}}'' \<or> p = Pattern ''${'' ''}'') \<and> q = Pattern ''{{'' ''}}''"
  proof -
    from p have "p = Pattern ''{{'' ''}}'' \<or> p = Pattern ''${'' ''}'' \<or> p = Pattern ''@VAR('' '')''"
      by (simp only: three_patterns)
    moreover from q
    have "q = Pattern ''{{'' ''}}'' \<or> q = Pattern ''${'' ''}'' \<or> q = Pattern ''@VAR('' '')''"
      by (simp only: three_patterns)
    ultimately show ?thesis using in_op by (elim disjE) simp_all
  qed
  have "\<exists>c0. opener p = [c0, CHR ''{'']"
    using pq by (elim conjE disjE) simp_all
  then obtain c0 where op: "opener p = [c0, CHR ''{'']" ..
  have cp: "CHR ''{'' \<notin> set (closer p)"
    using pq by (elim conjE disjE) simp_all
  from pq have ph: "?ph @ b = CHR ''{'' # CHR ''{'' # name @ ''}}'' @ b"
    by (simp add: placeholder_def)
  from d(4) have nn: "CHR ''{'' \<notin> set n'" using special_not_ident(1) by auto
  from u(1) d(2) op have "a @ u = c0 # CHR ''{'' # n' @ closer p" by simp
  with a obtain a1 where a1: "a = c0 # a1" "a1 @ u = CHR ''{'' # n' @ closer p"
    by (cases a) auto
  from u(3) ph u(2) have hu: "hd u = CHR ''{''" by (cases u) auto
  show ?thesis
  proof (cases a1)
    case Nil
    with a1 have "u = CHR ''{'' # n' @ closer p" by simp
    with u(3) ph have "CHR ''{'' # name @ ''}}'' @ b = n' @ closer p @ rest'" by simp
    with d(3) have "hd n' = CHR ''{''" by (cases n') auto
    with d(3) nn show ?thesis by (cases n') auto
  next
    case (Cons x a2)
    with a1 have "a2 @ u = n' @ closer p" by simp
    then have "set u \<subseteq> set n' \<union> set (closer p)"
      by (metis Un_iff set_append subsetI)
    with hu u(2) nn cp show ?thesis by (cases u) auto
  qed
qed


lemma matchAt_hd:
  assumes "matchAt p s = Some (m, name, rest)" and "opener p \<noteq> []"
  shows "s \<noteq> []" and "hd s = hd (opener p)"
proof -
  note d = matchAt_SomeD [OF assms(1)]
  from d(1,2) assms(2) show "s \<noteq> []" by simp
  from d(1,2) assms(2) show "hd s = hd (opener p)" by simp
qed

lemma no_match_inside:
  assumes p: "p \<in> set knownPatterns"
    and q: "q \<in> set knownPatterns"
    and pq: "p \<noteq> q" and n: "isIdent name"
    and s: "placeholder q name = m1 @ m2" and m2: "m2 \<noteq> []"
  shows "matchAt p (m2 @ b) = None"
proof (rule ccontr)
  assume "matchAt p (m2 @ b) \<noteq> None"
  then obtain m' n' rest' where m: "matchAt p (m2 @ b) = Some (m', n', rest')" by auto
  note d = matchAt_SomeD [OF m]
  from p have pc: "p = Pattern ''{{'' ''}}'' \<or> p = Pattern ''${'' ''}'' \<or> p = Pattern ''@VAR('' '')''"
    by (simp only: three_patterns)
  from q have qc: "q = Pattern ''{{'' ''}}'' \<or> q = Pattern ''${'' ''}'' \<or> q = Pattern ''@VAR('' '')''"
    by (simp only: three_patterns)
  from pc have pne: "opener p \<noteq> []" "\<not> isIdentChar (hd (opener p))"
    by (elim disjE; simp add: special_not_ident)+
  from matchAt_hd(2) [OF m pne(1)] m2 have h: "hd m2 = hd (opener p)" by simp
  from n have nn: "\<forall>c\<in>set name. isIdentChar c" "name \<noteq> []" by (simp_all add: isIdent_def)
  from m2 have "hd m2 \<in> set m2" by simp
  with s have "hd m2 \<in> set (placeholder q name)" by (metis Un_iff set_append)
  with h have "hd (opener p) \<in> set (opener q) \<union> set name \<union> set (closer q)"
    by (simp add: placeholder_def)
  with nn(1) pne(2) have "hd (opener p) \<in> set (opener q) \<union> set (closer q)" by auto
  with pc qc pq have c: "p = Pattern ''{{'' ''}}''" "q = Pattern ''${'' ''}''"
    by (elim disjE; simp)+
  from c s have s': "m1 @ m2 = CHR ''$'' # CHR ''{'' # name @ ''}''"
    by (simp add: placeholder_def)
  from c h have h': "hd m2 = CHR ''{''" by simp
  from d(1,2) c have pre: "\<exists>t. m2 @ b = CHR ''{'' # CHR ''{'' # t" by simp
  from nn have nb: "CHR ''{'' \<notin> set name" "hd name \<noteq> CHR ''{''"
    using special_not_ident(1) by (auto simp: neq_Nil_conv)
  show False
  proof (cases m1)
    case Nil
    with s' h' show False by simp
  next
    case (Cons x m1')
    with s' have 1: "m1' @ m2 = CHR ''{'' # name @ ''}''" by simp
    show False
    proof (cases m1')
      case Nil
      with 1 have "m2 @ b = CHR ''{'' # name @ ''}'' @ b" by simp
      with pre nn(2) nb(2) show False by (cases name) auto
    next
      case (Cons y m1'')
      with 1 have "m1'' @ m2 = name @ ''}''" by simp
      then have "set m2 \<subseteq> set name \<union> {CHR ''}''}"
        by (metis Un_iff set_append subsetI list.set(1) list.set(2))
      with \<open>hd m2 \<in> set m2\<close> h' nb(1) show False by auto
    qed
  qed
qed


lemma pass_keeps_placeholder:
  assumes p: "p \<in> set knownPatterns"
    and q: "q \<in> set knownPatterns"
    and n: "isIdent name"
    and base: "\<And>b. \<exists>b'. fst (ReplaceAllStringFunc p f (placeholder q name @ b))
                          = placeholder q name @ b'
                    \<and> W (snd (ReplaceAllStringFunc p f (placeholder q name @ b)))"
    and mono: "\<And>out out'. W out' \<Longrightarrow> W (out @ out')"
  shows "\<exists>a' b'. fst (ReplaceAllStringFunc p f (a @ placeholder q name @ b))
                    = a' @ placeholder q name @ b'
               \<and> W (snd (ReplaceAllStringFunc p f (a @ placeholder q name @ b)))"
proof (induction a rule: length_induct)
  case (1 a)
  let ?ph = "placeholder q name"
  show ?case
  proof (cases a)
    case Nil
    from base [of b] obtain b' where "fst (ReplaceAllStringFunc p f (?ph @ b)) = ?ph @ b'"
      "W (snd (ReplaceAllStringFunc p f (?ph @ b)))" by blast
    with Nil show ?thesis by (intro exI [of _ "[]"] exI [of _ b']) simp
  next
    case (Cons c a1)
    show ?thesis
    proof (cases "matchAt p (a @ ?ph @ b)")
      case None
      from "1.IH" Cons obtain a' b' where
        ih: "fst (ReplaceAllStringFunc p f (a1 @ ?ph @ b)) = a' @ ?ph @ b'"
            "W (snd (ReplaceAllStringFunc p f (a1 @ ?ph @ b)))"
        by force
      from None Cons have nm: "matchAt p (c # a1 @ ?ph @ b) = None" by simp
      from Replace_nomatch [OF nm, of f] ih Cons
      show ?thesis by (intro exI [of _ "c # a'"] exI [of _ b']) simp
    next
      case (Some t)
      then obtain m' n' rest' where m: "matchAt p (a @ ?ph @ b) = Some (m', n', rest')"
        by (cases t) auto
      from Cons have "a \<noteq> []" by simp
      from no_straddle [OF p q n this m] obtain a''
        where r: "rest' = a'' @ ?ph @ b" "length a'' < length a" by blast
      with "1.IH" obtain a' b' where
        ih: "fst (ReplaceAllStringFunc p f (a'' @ ?ph @ b)) = a' @ ?ph @ b'"
            "W (snd (ReplaceAllStringFunc p f (a'' @ ?ph @ b)))"
        by blast
      from Replace_match [OF m, of f] r(1) ih mono
      show ?thesis by (intro exI [of _ "fst (f m') @ a'"] exI [of _ b']) simp
    qed
  qed
qed

lemma other_pass_inside:
  assumes p: "p \<in> set knownPatterns"
    and q: "q \<in> set knownPatterns"
    and pq: "p \<noteq> q" and n: "isIdent name"
    and s: "placeholder q name = m1 @ m2"
  shows "fst (ReplaceAllStringFunc p f (m2 @ b)) = m2 @ fst (ReplaceAllStringFunc p f b)"
  using s
proof (induction m2 arbitrary: m1)
  case Nil
  show ?case by simp
next
  case (Cons c m2)
  from no_match_inside [OF p q pq n Cons.prems, of b]
  have nm: "matchAt p (c # m2 @ b) = None" by simp
  from Cons.prems have "placeholder q name = (m1 @ [c]) @ m2" by simp
  from Cons.IH [OF this] Replace_nomatch(1) [OF nm, of f] show ?case by simp
qed

lemma other_pass_keeps_placeholder:
  assumes p: "p \<in> set knownPatterns"
    and q: "q \<in> set knownPatterns"
    and pq: "p \<noteq> q" and n: "isIdent name"
  shows "\<exists>a' b'. fst (ReplaceAllStringFunc p f (a @ placeholder q name @ b))
                    = a' @ placeholder q name @ b'"
proof -
  have base: "\<exists>b'. fst (ReplaceAllStringFunc p f (placeholder q name @ b))
                          = placeholder q name @ b' \<and> True" for b
    using other_pass_inside [OF p q pq n, of "[]" "placeholder q name" f b] by simp
  have "\<exists>a' b'. fst (ReplaceAllStringFunc p f (a @ placeholder q name @ b))
                    = a' @ placeholder q name @ b' \<and> True"
    by (rule pass_keeps_placeholder [where W = "\<lambda>out. True", OF p q n base])
  then show ?thesis by simp
qed

lemma own_pass_keeps_placeholder:
  assumes q: "q \<in> set knownPatterns"
    and n: "isIdent name" and u: "constants r name = None"
  shows "\<exists>a' b'. fst (ReplaceAllStringFunc q (replaceFunc L r q) (a @ placeholder q name @ b))
                    = a' @ placeholder q name @ b'
               \<and> warning name
                   \<in> set (snd (ReplaceAllStringFunc q (replaceFunc L r q)
                                 (a @ placeholder q name @ b)))"
proof -
  from q have "q = Pattern ''{{'' ''}}'' \<or> q = Pattern ''${'' ''}'' \<or> q = Pattern ''@VAR('' '')''"
    by (simp only: three_patterns)
  then have cl: "closer q \<noteq> []" "\<not> isIdentChar (hd (closer q))"
    by (elim disjE; simp add: special_not_ident)+
  have base: "\<exists>b'. fst (ReplaceAllStringFunc q (replaceFunc L r q) (placeholder q name @ b))
                 = placeholder q name @ b'
            \<and> warning name
                \<in> set (snd (ReplaceAllStringFunc q (replaceFunc L r q) (placeholder q name @ b)))"
    for b
  proof -
    note m = matchAt_placeholder [OF n cl, of b]
    from Replace_match [OF m, of "replaceFunc L r q"] replaceFunc_match [OF m, of L r] u
    show ?thesis by simp
  qed
  have mono: "warning name \<in> set out' \<Longrightarrow> warning name \<in> set (out @ out')"
    for out out' :: "string list"
    by simp
  show ?thesis
    by (rule pass_keeps_placeholder
               [where W = "\<lambda>out. warning name \<in> set out", OF q q n base mono])
qed


lemma patternsLoop_fst_snd:
  "fst (patternsLoop L r (p # ps) s)
     = fst (patternsLoop L r ps (fst (ReplaceAllStringFunc p (replaceFunc L r p) s)))"
  "snd (patternsLoop L r (p # ps) s)
     = snd (ReplaceAllStringFunc p (replaceFunc L r p) s)
       @ snd (patternsLoop L r ps (fst (ReplaceAllStringFunc p (replaceFunc L r p) s)))"
  by (simp_all add: split_beta)

lemma patternsLoop_keeps_placeholder:
  assumes "set ps \<subseteq> set knownPatterns"
    and q: "q \<in> set knownPatterns"
    and n: "isIdent name" and u: "constants r name = None"
  shows "\<exists>a' b'. fst (patternsLoop L r ps (a @ placeholder q name @ b))
                    = a' @ placeholder q name @ b'
               \<and> (q \<in> set ps \<longrightarrow>
                    warning name \<in> set (snd (patternsLoop L r ps (a @ placeholder q name @ b))))"
  using assms(1)
proof (induction ps arbitrary: a b)
  case Nil
  show ?case by (intro exI [of _ a] exI [of _ b]) simp
next
  case (Cons p ps)
  let ?ph = "placeholder q name"
  let ?step = "ReplaceAllStringFunc p (replaceFunc L r p) (a @ ?ph @ b)"
  from Cons.prems have p: "p \<in> set knownPatterns"
    and ps: "set ps \<subseteq> set knownPatterns" by simp_all
  have "\<exists>a1 b1. fst ?step = a1 @ ?ph @ b1 \<and> (p = q \<longrightarrow> warning name \<in> set (snd ?step))"
  proof (cases "p = q")
    case True
    with own_pass_keeps_placeholder [OF q n u, of L a b] show ?thesis by simp
  next
    case False
    with other_pass_keeps_placeholder [OF p q False n, of "replaceFunc L r p" a b]
    show ?thesis by simp
  qed
  then obtain a1 b1 where 1: "fst ?step = a1 @ ?ph @ b1"
    and w: "p = q \<longrightarrow> warning name \<in> set (snd ?step)" by blast
  from Cons.IH [OF ps, of a1 b1] obtain a' b'
    where 2: "fst (patternsLoop L r ps (a1 @ ?ph @ b1)) = a' @ ?ph @ b'"
      and w2: "q \<in> set ps \<longrightarrow> warning name \<in> set (snd (patternsLoop L r ps (a1 @ ?ph @ b1)))"
    by blast
  have f: "fst (patternsLoop L r (p # ps) (a @ ?ph @ b)) = a' @ ?ph @ b'"
    using 1 2 by (simp add: patternsLoop_fst_snd del: patternsLoop.simps)
  have s: "q \<in> set (p # ps) \<longrightarrow>
             warning name \<in> set (snd (patternsLoop L r (p # ps) (a @ ?ph @ b)))"
    using 1 w w2 by (auto simp add: patternsLoop_fst_snd simp del: patternsLoop.simps)
  from f s show ?case by blast
qed

text \<open>
  Claim C7.  Let \<open>name\<close> be a name without an entry in the table and \<open>q\<close> one of the three
  patterns.  The function literal returns the placeholder as it is and prints the warning;
  the pass of \<open>q\<close> over a text that starts with the placeholder puts the placeholder
  out unchanged, prints the warning and goes on with what follows, as on its own; and
  wherever the placeholder stands in a line, the line that \<^verbatim>\<open>processCommentLine\<close> returns
  still holds it, after all three passes, and the warning is among what was printed.
  The loop over the lines goes on to every line, and the run fails only if the file
  cannot be read or written.
\<close>

theorem unresolved_placeholder_left_unchanged:
  assumes "patterns r = knownPatterns"
    and "q \<in> set (patterns r)" and "isIdent name" and "constants r name = None"
  shows "replaceFunc L r q (placeholder q name) = (placeholder q name, [warning name])
       \<and> ReplaceAllStringFunc q (replaceFunc L r q) (placeholder q name @ post)
           = (placeholder q name @ fst (ReplaceAllStringFunc q (replaceFunc L r q) post),
              warning name # snd (ReplaceAllStringFunc q (replaceFunc L r q) post))
       \<and> (\<exists>pre' post'.
             fst (processCommentLine L r (pre @ placeholder q name @ post))
               = pre' @ placeholder q name @ post')
       \<and> warning name \<in> set (snd (processCommentLine L r (pre @ placeholder q name @ post)))
       \<and> (\<forall>j<length lines.
             fst (linesLoop L r 0 lines False []) ! j
               = (if Contains (lines ! j) ''//'' then fst (processCommentLine L r (lines ! j))
                  else lines ! j))
       \<and> (files w filename = Some content \<and> filename \<notin> readonly w
            \<longrightarrow> (\<exists>w'. replaceVariablesInComments L r w filename = Inr w'))"
proof -
  let ?ph = "placeholder q name"
  from assms(1,2) have q: "q \<in> set knownPatterns" by simp
  then have "q = Pattern ''{{'' ''}}'' \<or> q = Pattern ''${'' ''}'' \<or> q = Pattern ''@VAR('' '')''"
    by (simp only: three_patterns)
  then have cl: "closer q \<noteq> []" "\<not> isIdentChar (hd (closer q))"
    by (elim disjE; simp add: special_not_ident)+
  note m = matchAt_placeholder [OF assms(3) cl]
  from m [of "[]"] have m0: "matchAt q ?ph = Some (?ph, name, [])" by simp
  have 1: "replaceFunc L r q ?ph = (?ph, [warning name])"
    using replaceFunc_match [OF m0, of L r] assms(4) by simp
  have 2: "ReplaceAllStringFunc q (replaceFunc L r q) (?ph @ post)
           = (?ph @ fst (ReplaceAllStringFunc q (replaceFunc L r q) post),
              warning name # snd (ReplaceAllStringFunc q (replaceFunc L r q) post))"
    using Replace_match [OF m [of post], of "replaceFunc L r q"] 1
    by (simp add: prod_eq_iff)
  from patternsLoop_keeps_placeholder [OF _ q assms(3,4), of "patterns r" L pre post] assms(1,2)
  have 3: "\<exists>pre' post'. fst (processCommentLine L r (pre @ ?ph @ post)) = pre' @ ?ph @ post'"
    and 4: "warning name \<in> set (snd (processCommentLine L r (pre @ ?ph @ post)))"
    by (auto simp: processCommentLine_def)
  have 5: "\<forall>j<length lines.
             fst (linesLoop L r 0 lines False []) ! j
               = (if Contains (lines ! j) ''//'' then fst (processCommentLine L r (lines ! j))
                  else lines ! j)"
    by (simp add: linesLoop_nth)
  have 6: "files w filename = Some content \<and> filename \<notin> readonly w
            \<longrightarrow> (\<exists>w'. replaceVariablesInComments L r w filename = Inr w')"
    by (simp add: replaceVariablesInComments_def ReadFile_def WriteFile_def Let_def split_beta)
  from 1 2 3 4 5 6 show ?thesis by blast
qed


text \<open>
  \<^verbatim>\<open>Unknown\<close> has no binding and \<^verbatim>\<open>Status\<close> has: the first placeholder stays, with a
  warning, and the second is resolved.
\<close>

theorem unresolved_placeholder_left_unchanged_witness:
  "processCommentLine noLib
     (NewSwaggerVariableReplacer\<lparr>constants := [''Status'' \<mapsto> IntVal 200]\<rparr>)
     ''// {{Unknown}} ${Status}''
     = (''// {{Unknown}} 200'', [warning ''Unknown''])
   \<and> replaceFunc noLib
       (NewSwaggerVariableReplacer\<lparr>constants := [''Status'' \<mapsto> IntVal 200]\<rparr>)
       (Pattern ''{{'' ''}}'') ''{{Unknown}}''
     = (''{{Unknown}}'', [warning ''Unknown''])
   \<and> warning ''Unknown''
       \<in> set (snd (processCommentLine noLib
                    (NewSwaggerVariableReplacer\<lparr>constants := [''Status'' \<mapsto> IntVal 200]\<rparr>)
                    ''// {{Unknown}} ${Status}''))"
proof -
  let ?r = "NewSwaggerVariableReplacer\<lparr>constants := [''Status'' \<mapsto> IntVal 200]\<rparr>
              :: unit SwaggerVariableReplacer"
  let ?q = "Pattern ''{{'' ''}}''"
  have 1: "patterns ?r = knownPatterns" by (simp add: patterns_New)
  have 2: "?q \<in> set (patterns ?r)" by (simp add: patterns_New knownPatterns_def)
  have 3: "isIdent ''Unknown''" by code_simp
  have 4: "constants ?r ''Unknown'' = None" by simp
  note T = unresolved_placeholder_left_unchanged
             [OF 1 2 3 4, of noLib "'' ${Status}''" "''// ''"]
  have p: "placeholder ?q ''Unknown'' = ''{{Unknown}}''" by (simp add: placeholder_def)
  from T have a: "replaceFunc noLib ?r ?q ''{{Unknown}}'' = (''{{Unknown}}'', [warning ''Unknown''])"
    unfolding p by blast
  from T have b: "warning ''Unknown''
       \<in> set (snd (processCommentLine noLib ?r (''// '' @ ''{{Unknown}}'' @ '' ${Status}'')))"
    unfolding p by blast
  have c: "processCommentLine noLib ?r ''// {{Unknown}} ${Status}''
     = (''// {{Unknown}} 200'', [warning ''Unknown''])"
    by code_simp
  from a b c show ?thesis by simp
qed

section \<open>The rewriter: a second run\<close>

lemma known_cases:
  assumes "p \<in> set knownPatterns"
  obtains "p = Pattern ''{{'' ''}}''" | "p = Pattern ''${'' ''}''" | "p = Pattern ''@VAR('' '')''"
  using assms by (auto simp: knownPatterns_def)

lemma known_closer:
  assumes "p \<in> set knownPatterns"
  shows "closer p \<noteq> []" and "\<not> isIdentChar (hd (closer p))"
  using assms by (auto elim!: known_cases simp: special_not_ident)

lemma known_not_neutral:
  assumes "p \<in> set knownPatterns"
  shows "\<forall>c\<in>set (opener p) \<union> set (closer p). \<not> neutral c"
  using assms
  by (auto elim!: known_cases simp: neutral_def isIdentChar_def isIdentStart_def)

lemma match_not_neutral:
  assumes "p \<in> set knownPatterns" and "matchAt p s = Some (m, n, rest)"
  shows "\<forall>c\<in>set m. \<not> neutral c"
proof -
  note d = matchAt_SomeD [OF assms(2)]
  from d(4) have "\<forall>c\<in>set n. \<not> neutral c" by (simp add: neutral_def)
  with known_not_neutral [OF assms(1)] d(2) show ?thesis by auto
qed

lemma match_isIdent:
  assumes "matchAt p s = Some (m, n, rest)"
  shows "isIdent n" and "m = placeholder p n"
  using matchAt_SomeD [OF assms] by (simp_all add: isIdent_def placeholder_def)

lemma matchAt_extend:
  assumes "p \<in> set knownPatterns" and "matchAt p s = Some (m, n, rest)"
  shows "matchAt p (s @ x) = Some (m, n, rest @ x)"
proof -
  note d = matchAt_SomeD [OF assms(2)]
  note i = match_isIdent [OF assms(2)]
  from matchAt_placeholder [OF i(1) known_closer [OF assms(1)], of "rest @ x"] i(2) d(1)
  show ?thesis by simp
qed

lemma matchAt_cut:
  assumes "p \<in> set knownPatterns" and "matchAt p (u @ x) = Some (m, n, rest)"
    and "length m \<le> length u"
  shows "\<exists>rest'. matchAt p u = Some (m, n, rest')"
proof -
  note d = matchAt_SomeD [OF assms(2)]
  note i = match_isIdent [OF assms(2)]
  from d(1) assms(3) obtain u' where u: "u = m @ u'"
    by (auto simp: append_eq_append_conv2)
  from matchAt_placeholder [OF i(1) known_closer [OF assms(1)], of u'] i(2) u
  show ?thesis by simp
qed

lemma no_cross:
  assumes p: "p \<in> set knownPatterns" and m: "matchAt p (u @ F) = Some (m, n, rest)"
    and u: "u \<noteq> []" and F: "F = [] \<or> neutral (hd F) \<or> neutral (last u)"
  shows "\<exists>u'. u = m @ u' \<and> rest = u' @ F \<and> matchAt p u = Some (m, n, u')"
proof -
  note d = matchAt_SomeD [OF m]
  note nn = match_not_neutral [OF p m]
  have le: "length m \<le> length u"
  proof (rule ccontr)
    assume "\<not> length m \<le> length u"
    then have l: "length u < length m" by simp
    from append_straddle [OF d(1) u l]
    obtain w where w: "m = u @ w" "w \<noteq> []" "F = w @ rest" by auto
    from u have "last u \<in> set u" by (rule last_in_set)
    with w(1) have a: "last u \<in> set m" by simp
    from w have b: "F \<noteq> []" "hd F \<in> set m" by (cases w; simp)+
    from a b nn F show False by auto
  qed
  with d(1) obtain u' where u': "u = m @ u'" "rest = u' @ F"
    by (auto simp: append_eq_append_conv2)
  from matchAt_cut [OF p m le] obtain rest' where c: "matchAt p u = Some (m, n, rest')" ..
  from matchAt_SomeD(1) [OF c] u'(1) have "rest' = u'" by simp
  with c u' show ?thesis by blast
qed

lemma text_names:
  assumes p: "p \<in> set knownPatterns"
  shows "F = [] \<or> neutral (hd F) \<or> (t \<noteq> [] \<and> neutral (last t))
    \<Longrightarrow> set (placeholderNames p (t @ F)) \<subseteq> set (placeholderNames p t) \<union> set (placeholderNames p F)"
proof (induction t)
  case Nil
  show ?case by simp
next
  case (Cons c cs)
  from Cons.prems have F: "F = [] \<or> neutral (hd F) \<or> neutral (last (c # cs))" by auto
  have sub: "set (placeholderNames p cs) \<subseteq> set (placeholderNames p (c # cs))"
    by (auto split: option.splits)
  have ih: "set (placeholderNames p (cs @ F))
              \<subseteq> set (placeholderNames p cs) \<union> set (placeholderNames p F)"
  proof (cases "cs = []")
    case True
    then show ?thesis by simp
  next
    case False
    with Cons.prems have "F = [] \<or> neutral (hd F) \<or> (cs \<noteq> [] \<and> neutral (last cs))" by auto
    then show ?thesis by (rule Cons.IH)
  qed
  show ?case
  proof (cases "matchAt p (c # cs @ F)")
    case None
    with ih sub show ?thesis by auto
  next
    case (Some x)
    then obtain m n rest where m: "matchAt p ((c # cs) @ F) = Some (m, n, rest)"
      by (cases x) auto
    from no_cross [OF p m _ F] obtain u' where "matchAt p (c # cs) = Some (m, n, u')" by auto
    then have "n \<in> set (placeholderNames p (c # cs))" by (rule placeholderNames_match)
    moreover from m have "placeholderNames p (c # cs @ F) = n # placeholderNames p (cs @ F)"
      by simp
    ultimately show ?thesis using ih sub by auto
  qed
qed

lemma text_pass:
  assumes p: "p \<in> set knownPatterns"
  shows "\<forall>n\<in>set (placeholderNames p t). constants r n = None
    \<Longrightarrow> F = [] \<or> neutral (hd F) \<or> (t \<noteq> [] \<and> neutral (last t))
    \<Longrightarrow> fst (ReplaceAllStringFunc p (replaceFunc L r p) (t @ F))
          = t @ fst (ReplaceAllStringFunc p (replaceFunc L r p) F)"
proof (induction t rule: length_induct)
  case (1 t)
  show ?case
  proof (cases t)
    case Nil
    then show ?thesis by simp
  next
    case (Cons c cs)
    from "1.prems"(2) Cons have F: "F = [] \<or> neutral (hd F) \<or> neutral (last t)" by auto
    have step: "fst (ReplaceAllStringFunc p (replaceFunc L r p) (t' @ F))
                  = t' @ fst (ReplaceAllStringFunc p (replaceFunc L r p) F)"
      if "length t' < length t" and "t = a @ t'" for a t'
    proof (cases "t' = []")
      case True
      then show ?thesis by simp
    next
      case False
      with that(2) Cons have "last t' = last t" by simp
      with F False have c: "F = [] \<or> neutral (hd F) \<or> (t' \<noteq> [] \<and> neutral (last t'))" by auto
      from placeholderNames_suffix [of p t' a] that(2) "1.prems"(1)
      have "\<forall>n\<in>set (placeholderNames p t'). constants r n = None" by blast
      with "1.IH" that(1) c show ?thesis by blast
    qed
    show ?thesis
    proof (cases "matchAt p (t @ F)")
      case None
      with Cons have nm: "matchAt p (c # cs @ F) = None" by simp
      from Cons have "length cs < length t" "t = [c] @ cs" by simp_all
      from step [OF this] Replace_nomatch(1) [OF nm, of "replaceFunc L r p"] Cons
      show ?thesis by simp
    next
      case (Some x)
      then obtain m n rest where m: "matchAt p (t @ F) = Some (m, n, rest)" by (cases x) auto
      from Cons have "t \<noteq> []" by simp
      from no_cross [OF p m this F] obtain u' where u: "t = m @ u'" "rest = u' @ F"
        and mt: "matchAt p t = Some (m, n, u')" by blast
      from placeholderNames_match [OF mt] "1.prems"(1) have un: "constants r n = None" by blast
      from matchAt_shorter [OF mt] have "length u' < length t" .
      from step [OF this u(1)]
      have "fst (ReplaceAllStringFunc p (replaceFunc L r p) (u' @ F))
              = u' @ fst (ReplaceAllStringFunc p (replaceFunc L r p) F)" .
      with Replace_match(1) [OF m, of "replaceFunc L r p"] replaceFunc_match [OF m, of L r] un u
      show ?thesis by simp
    qed
  qed
qed

lemma own_inside:
  assumes p: "p \<in> set knownPatterns" and n: "isIdent name"
    and s: "placeholder p name = m1 @ m2" and m1: "m1 \<noteq> []" and m2: "m2 \<noteq> []"
  shows "matchAt p (m2 @ b) = None"
proof (rule ccontr)
  assume "matchAt p (m2 @ b) \<noteq> None"
  then obtain m' n' rest' where m: "matchAt p (m2 @ b) = Some (m', n', rest')" by auto
  note d = matchAt_SomeD [OF m]
  from p have pne: "opener p \<noteq> []" by (rule known_cases) simp_all
  from matchAt_hd(2) [OF m pne] m2 have h: "hd m2 = hd (opener p)" by simp
  from n have nn: "\<forall>c\<in>set name. isIdentChar c" "name \<noteq> []" by (simp_all add: isIdent_def)
  from m1 obtain x m1' where c: "m1 = x # m1'" by (cases m1) auto
  with s have t: "tl (placeholder p name) = m1' @ m2" by simp
  from m2 have hm: "hd m2 \<in> set m2" by simp
  from p show False
  proof (cases rule: known_cases)
    case 1
    from nn have nb: "CHR ''{'' \<notin> set name" "hd name \<noteq> CHR ''{''"
      using special_not_ident(1) by (auto simp: neq_Nil_conv)
    from 1 h have h': "hd m2 = CHR ''{''" by simp
    from d(1,2) 1 have pre: "\<exists>t. m2 @ b = CHR ''{'' # CHR ''{'' # t" by simp
    from t 1 have 2: "m1' @ m2 = CHR ''{'' # name @ ''}}''"
      by (simp add: placeholder_def)
    show False
    proof (cases m1')
      case Nil
      with 2 have "m2 @ b = CHR ''{'' # name @ ''}}'' @ b" by simp
      with pre nn(2) nb(2) show False by (cases name) simp_all
    next
      case (Cons y m1'')
      with 2 have "m1'' @ m2 = name @ ''}}''" by simp
      then have "set (m1'' @ m2) = set (name @ ''}}'')" by (rule arg_cong)
      then have "set m2 \<subseteq> set name \<union> {CHR ''}''}" by auto
      with hm have "hd m2 \<in> set name \<union> {CHR ''}''}" by (rule subsetD [rotated])
      with h' nb(1) show False by simp
    qed
  next
    case 2
    from h 2 have "hd m2 = CHR ''$''" by simp
    with hm have "CHR ''$'' \<in> set m2" by simp
    then have "CHR ''$'' \<in> set (m1' @ m2)" by simp
    with t [symmetric] 2 have "CHR ''$'' \<in> set name" by (simp add: placeholder_def)
    with nn(1) special_not_ident(3) show False by blast
  next
    case 3
    from h 3 have "hd m2 = CHR ''@''" by simp
    with hm have "CHR ''@'' \<in> set m2" by simp
    then have "CHR ''@'' \<in> set (m1' @ m2)" by simp
    with t [symmetric] 3 have "CHR ''@'' \<in> set name" by (simp add: placeholder_def)
    with nn(1) special_not_ident(4) show False by blast
  qed
qed

lemma skip_nomatch:
  assumes "\<forall>k<length u. matchAt p (drop k u @ F) = None"
  shows "fst (ReplaceAllStringFunc p f (u @ F)) = u @ fst (ReplaceAllStringFunc p f F)"
    and "placeholderNames p (u @ F) = placeholderNames p F"
  using assms
proof (induction u)
  case Nil
  { case 1 show ?case by simp }
  { case 2 show ?case by simp }
next
  case (Cons c u)
  { case 1
    from 1 [rule_format, of 0] have nm: "matchAt p (c # u @ F) = None" by simp
    have "\<forall>k<length u. matchAt p (drop k u @ F) = None"
    proof (intro allI impI)
      fix k assume "k < length u"
      with 1 [rule_format, of "Suc k"] show "matchAt p (drop k u @ F) = None" by simp
    qed
    from Cons.IH(1) [OF this] Replace_nomatch(1) [OF nm, of f] show ?case by simp }
  { case 2
    from 2 [rule_format, of 0] have nm: "matchAt p (c # u @ F) = None" by simp
    have "\<forall>k<length u. matchAt p (drop k u @ F) = None"
    proof (intro allI impI)
      fix k assume "k < length u"
      with 2 [rule_format, of "Suc k"] show "matchAt p (drop k u @ F) = None" by simp
    qed
    from Cons.IH(2) [OF this] nm show ?case by simp }
qed


lemma seams_tail: "seams (x # xs) \<Longrightarrow> seams xs"
  by (cases xs) simp_all

lemma separated_tail: "separated r (x # xs) \<Longrightarrow> separated r xs"
  by (auto simp: separated_def dest: seams_tail)

lemma seams_follow:
  assumes "seams (x # xs)"
  shows "render xs = [] \<or> neutral (hd (render xs)) \<or> endsNeutral x"
proof (cases xs)
  case Nil
  then show ?thesis by simp
next
  case (Cons y ys)
  with assms have "endsNeutral x \<or> startsNeutral y" by simp
  then show ?thesis
  proof
    assume "endsNeutral x"
    then show ?thesis by simp
  next
    assume "startsNeutral y"
    then obtain t where "y = Text t" "t \<noteq> []" "neutral (hd t)" by (cases y) simp_all
    with Cons show ?thesis by simp
  qed
qed

lemma other_scan:
  assumes p: "p \<in> set knownPatterns" and q: "q \<in> set knownPatterns"
    and pq: "p \<noteq> q" and n: "isIdent name"
  shows "\<forall>k<length (placeholder q name). matchAt p (drop k (placeholder q name) @ F) = None"
proof (intro allI impI)
  fix k assume k: "k < length (placeholder q name)"
  have "placeholder q name = take k (placeholder q name) @ drop k (placeholder q name)" by simp
  moreover from k have "drop k (placeholder q name) \<noteq> []" by simp
  ultimately show "matchAt p (drop k (placeholder q name) @ F) = None"
    by (rule no_match_inside [OF p q pq n])
qed

lemma own_scan:
  assumes p: "p \<in> set knownPatterns" and n: "isIdent name"
  shows "\<forall>k<length (tl (placeholder p name)). matchAt p (drop k (tl (placeholder p name)) @ F) = None"
proof (intro allI impI)
  let ?ph = "placeholder p name"
  fix k assume k: "k < length (tl ?ph)"
  then have ne: "?ph \<noteq> []" by auto
  have d: "drop k (tl ?ph) = drop (Suc k) ?ph" by (simp add: drop_Suc)
  have 1: "?ph = take (Suc k) ?ph @ drop (Suc k) ?ph" by simp
  from ne have 2: "take (Suc k) ?ph \<noteq> []" by simp
  from k have 3: "drop (Suc k) ?ph \<noteq> []" by simp
  from own_inside [OF p n 1 2 3, of F] d show "matchAt p (drop k (tl ?ph) @ F) = None" by simp
qed

lemma text_follow:
  assumes "seams (Text t # xs)"
  shows "render xs = [] \<or> neutral (hd (render xs)) \<or> (t \<noteq> [] \<and> neutral (last t))"
  using seams_follow [OF assms] by simp

lemma pass_render:
  assumes pat: "patterns r = knownPatterns" and p: "p \<in> set knownPatterns"
  shows "separated r xs \<Longrightarrow>
         fst (ReplaceAllStringFunc p (replaceFunc L r p) (render xs))
           = render (map (resolve L r p) xs)"
proof (induction xs)
  case Nil
  show ?case by (simp add: Replace_Nil)
next
  case (Cons x xs)
  from Cons.prems have sep: "separated r xs" by (rule separated_tail)
  note IH = Cons.IH [OF sep]
  show ?case
  proof (cases x)
    case (Text t)
    with Cons.prems have v: "noBoundPlaceholder r t" and sm: "seams (Text t # xs)"
      by (simp_all add: separated_def)
    from v p pat have "\<forall>n\<in>set (placeholderNames p t). constants r n = None"
      by (simp add: noBoundPlaceholder_def)
    from text_pass [OF p this text_follow [OF sm], of L] IH Text show ?thesis by simp
  next
    case (Hole q name)
    with Cons.prems pat have q: "q \<in> set knownPatterns" and n: "isIdent name"
      by (simp_all add: separated_def)
    show ?thesis
    proof (cases "q = p")
      case False
      then have pq: "p \<noteq> q" by simp
      from skip_nomatch(1) [OF other_scan [OF p q pq n]] IH Hole False show ?thesis by simp
    next
      case True
      note m = matchAt_placeholder [OF n known_closer [OF q], of "render xs"]
      from Replace_match(1) [OF m, of "replaceFunc L r q"] replaceFunc_match [OF m, of L r]
        IH Hole True
      show ?thesis by (simp split: option.splits)
    qed
  qed
qed

lemma names_render:
  assumes pat: "patterns r = knownPatterns" and p: "p \<in> set knownPatterns"
  shows "separated r xs \<Longrightarrow>
         set (placeholderNames p (render xs))
           \<subseteq> {n. constants r n = None} \<union> {n. Hole p n \<in> set xs}"
proof (induction xs)
  case Nil
  show ?case by simp
next
  case (Cons x xs)
  from Cons.prems have sep: "separated r xs" by (rule separated_tail)
  note IH = Cons.IH [OF sep]
  show ?case
  proof (cases x)
    case (Text t)
    with Cons.prems have v: "noBoundPlaceholder r t" and sm: "seams (Text t # xs)"
      by (simp_all add: separated_def)
    from v p pat have "\<forall>n\<in>set (placeholderNames p t). constants r n = None"
      by (simp add: noBoundPlaceholder_def)
    with text_names [OF p text_follow [OF sm]] IH Text show ?thesis by auto
  next
    case (Hole q name)
    with Cons.prems pat have q: "q \<in> set knownPatterns" and n: "isIdent name"
      by (simp_all add: separated_def)
    show ?thesis
    proof (cases "q = p")
      case False
      then have pq: "p \<noteq> q" by simp
      from skip_nomatch(2) [OF other_scan [OF p q pq n]] IH Hole False show ?thesis by auto
    next
      case True
      let ?ph = "placeholder q name"
      from n have ne: "?ph \<noteq> []" by (simp add: placeholder_def isIdent_def)
      then obtain c cs where ph: "?ph = c # cs" by (cases ?ph) auto
      note m = matchAt_placeholder [OF n known_closer [OF q], of "render xs"]
      from ph have cs: "cs = tl ?ph" by simp
      from own_scan [OF q n, of "render xs"] cs True
      have "\<forall>k<length cs. matchAt p (drop k cs @ render xs) = None" by simp
      from skip_nomatch(2) [OF this]
      have "placeholderNames p (cs @ render xs) = placeholderNames p (render xs)" .
      moreover from m ph True
      have "placeholderNames p (c # cs @ render xs) = name # placeholderNames p (cs @ render xs)"
        by simp
      ultimately have "placeholderNames p (render (x # xs)) = name # placeholderNames p (render xs)"
        using Hole ph by simp
      with IH Hole True show ?thesis by auto
    qed
  qed
qed

lemma resolve_seams: "seams xs \<Longrightarrow> seams (map (resolve L r p) xs)"
proof (induction xs rule: seams.induct)
  case 1
  show ?case by simp
next
  case (2 x)
  show ?case by simp
next
  case (3 x y xs)
  have e: "endsNeutral x \<Longrightarrow> endsNeutral (resolve L r p x)" by (cases x) simp_all
  have s: "startsNeutral y \<Longrightarrow> startsNeutral (resolve L r p y)" by (cases y) simp_all
  from 3 e s show ?case by auto
qed

lemma resolve_valid:
  "plainValues L r \<Longrightarrow> validItem r x \<Longrightarrow> validItem r (resolve L r p x)"
  by (cases x) (auto simp: plainValues_def split: option.splits)

lemma resolve_separated:
  "plainValues L r \<Longrightarrow> separated r xs \<Longrightarrow> separated r (map (resolve L r p) xs)"
  by (auto simp: separated_def list_all_iff resolve_seams resolve_valid)

lemma resolve_holes:
  assumes "Hole q n \<in> set (map (resolve L r p) xs)"
  shows "Hole q n \<in> set xs \<and> (q = p \<longrightarrow> constants r n = None)"
proof -
  from assms obtain x where x: "x \<in> set xs" "resolve L r p x = Hole q n" by auto
  have "resolve L r p x = Hole q n \<Longrightarrow> x = Hole q n \<and> (q = p \<longrightarrow> constants r n = None)"
    by (cases x) (simp_all split: if_splits option.splits)
  with x show ?thesis by simp
qed

lemma passes_render:
  assumes pat: "patterns r = knownPatterns" and tab: "plainValues L r"
  shows "set ps \<subseteq> set knownPatterns \<Longrightarrow> separated r xs \<Longrightarrow>
         \<exists>xs'. fst (patternsLoop L r ps (render xs)) = render xs' \<and> separated r xs'
              \<and> (\<forall>q n. Hole q n \<in> set xs'
                    \<longrightarrow> Hole q n \<in> set xs \<and> (q \<in> set ps \<longrightarrow> constants r n = None))"
proof (induction ps arbitrary: xs)
  case Nil
  then show ?case by (intro exI [of _ xs]) simp
next
  case (Cons p ps)
  from Cons.prems have p: "p \<in> set knownPatterns" and ps: "set ps \<subseteq> set knownPatterns"
    by simp_all
  let ?xs1 = "map (resolve L r p) xs"
  from resolve_separated [OF tab Cons.prems(2)] have sep1: "separated r ?xs1" .
  from Cons.IH [OF ps sep1] obtain xs' where
    1: "fst (patternsLoop L r ps (render ?xs1)) = render xs'" and 2: "separated r xs'"
    and 3: "\<forall>q n. Hole q n \<in> set xs'
              \<longrightarrow> Hole q n \<in> set ?xs1 \<and> (q \<in> set ps \<longrightarrow> constants r n = None)"
    by blast
  have f: "fst (patternsLoop L r (p # ps) (render xs)) = render xs'"
    using 1 pass_render [OF pat p Cons.prems(2), of L]
    by (simp add: patternsLoop_fst_snd del: patternsLoop.simps)
  have h: "\<forall>q n. Hole q n \<in> set xs'
              \<longrightarrow> Hole q n \<in> set xs \<and> (q \<in> set (p # ps) \<longrightarrow> constants r n = None)"
  proof (intro allI impI)
    fix q n assume "Hole q n \<in> set xs'"
    with 3 have a: "Hole q n \<in> set ?xs1" and b: "q \<in> set ps \<longrightarrow> constants r n = None"
      by blast+
    from resolve_holes [OF a] b
    show "Hole q n \<in> set xs \<and> (q \<in> set (p # ps) \<longrightarrow> constants r n = None)" by auto
  qed
  from f 2 h show ?case by blast
qed

lemma first_run_output:
  assumes pat: "patterns r = knownPatterns" and tab: "plainValues L r" and sep: "separated r xs"
  shows "noBoundPlaceholder r (fst (processCommentLine L r (render xs)))"
proof -
  from passes_render [OF pat tab subset_refl sep] obtain xs' where
    1: "fst (patternsLoop L r knownPatterns (render xs)) = render xs'" and 2: "separated r xs'"
    and 3: "\<forall>q n. Hole q n \<in> set xs'
              \<longrightarrow> Hole q n \<in> set xs \<and> (q \<in> set knownPatterns \<longrightarrow> constants r n = None)"
    by blast
  have "\<forall>p\<in>set knownPatterns. \<forall>name\<in>set (placeholderNames p (render xs')). constants r name = None"
  proof (intro ballI)
    fix p name assume p: "p \<in> set knownPatterns" and "name \<in> set (placeholderNames p (render xs'))"
    with names_render [OF pat p 2] have "constants r name = None \<or> Hole p name \<in> set xs'" by auto
    with 3 p show "constants r name = None" by blast
  qed
  with 1 pat show ?thesis by (simp add: noBoundPlaceholder_def processCommentLine_def)
qed

lemma setOffFrom_drop:
  "setOffFrom r b (u @ v) \<Longrightarrow> u \<noteq> [] \<Longrightarrow> setOffFrom r (neutral (last u)) v"
proof (induction u arbitrary: b)
  case Nil
  then show ?case by simp
next
  case (Cons c u)
  from Cons.prems(1) have so: "setOffFrom r (neutral c) (u @ v)" by simp
  show ?case
  proof (cases "u = []")
    case True
    with so show ?thesis by simp
  next
    case False
    from Cons.IH [OF so False] False show ?thesis by simp
  qed
qed

lemma setOffFrom_match:
  assumes "setOffFrom r b s" and "p \<in> set (patterns r)"
    and "matchAt p s = Some (m, n, rest)" and "constants r n = Some v"
  shows "b" and "rest = [] \<or> neutral (hd rest)"
proof -
  from assms(3) obtain c cs where s: "s = c # cs" by (cases s) (simp_all add: matchAt_Nil)
  with assms(1) have "\<forall>p\<in>set (patterns r).
         case matchAt p s of
           None \<Rightarrow> True
         | Some (m, name, rest) \<Rightarrow>
             (case constants r name of
                None \<Rightarrow> True
              | Some v \<Rightarrow> b \<and> (rest = [] \<or> neutral (hd rest)))"
    by simp
  from this [rule_format, OF assms(2)] assms(3,4)
  have "b \<and> (rest = [] \<or> neutral (hd rest))" by simp
  then show "b" and "rest = [] \<or> neutral (hd rest)" by simp_all
qed

lemma neutral_nomatch:
  assumes "p \<in> set knownPatterns" and "s \<noteq> []" and "neutral (hd s)"
  shows "matchAt p s = None"
proof (rule ccontr)
  assume "matchAt p s \<noteq> None"
  then obtain m n rest where m: "matchAt p s = Some (m, n, rest)" by auto
  note d = matchAt_SomeD [OF m]
  from d(2,3) have "m \<noteq> []" by simp
  with d(1) have "hd s \<in> set m" by (cases m) simp_all
  with match_not_neutral [OF assms(1) m] assms(3) show False by blast
qed

lemma single_noBound:
  assumes pat: "patterns r = knownPatterns"
    and "\<forall>p\<in>set knownPatterns. \<forall>m n rest.
           matchAt p (c # t @ F) = Some (m, n, rest) \<longrightarrow> constants r n = None"
    and "noBoundPlaceholder r t"
  shows "noBoundPlaceholder r (c # t)"
  unfolding noBoundPlaceholder_def
proof (intro ballI)
  fix p name assume p': "p \<in> set (patterns r)" and n: "name \<in> set (placeholderNames p (c # t))"
  from p' pat have p: "p \<in> set knownPatterns" by simp
  show "constants r name = None"
  proof (cases "matchAt p (c # t)")
    case None
    with n have "name \<in> set (placeholderNames p t)" by simp
    with assms(3) p' show ?thesis by (simp add: noBoundPlaceholder_def)
  next
    case (Some x)
    then obtain m k rest where m: "matchAt p (c # t) = Some (m, k, rest)" by (cases x) auto
    from matchAt_extend [OF p m, of F] have "matchAt p (c # t @ F) = Some (m, k, rest @ F)" by simp
    with assms(2) p have k: "constants r k = None" by blast
    from m n have "name = k \<or> name \<in> set (placeholderNames p t)" by simp
    with k assms(3) p' show ?thesis by (auto simp: noBoundPlaceholder_def)
  qed
qed

lemma setOffFrom_items:
  assumes pat: "patterns r = knownPatterns"
  shows "setOffFrom r b s \<Longrightarrow>
   \<exists>xs. s = render xs \<and> separated r xs \<and> (s = [] \<longrightarrow> xs = [])
      \<and> (\<forall>q n. Hole q n \<in> set xs \<longrightarrow> constants r n \<noteq> None)
      \<and> (s \<noteq> [] \<and> (\<forall>p\<in>set knownPatterns. \<forall>m n rest.
                        matchAt p s = Some (m, n, rest) \<longrightarrow> constants r n = None)
            \<longrightarrow> (\<exists>t ys. xs = Text t # ys \<and> t \<noteq> [] \<and> hd t = hd s))"
proof (induction s arbitrary: b rule: length_induct)
  case (1 s)
  have empty: "noBoundPlaceholder r []" by (simp add: noBoundPlaceholder_def)
  show ?case
  proof (cases s)
    case Nil
    then show ?thesis by (intro exI [of _ "[]"]) (simp add: separated_def)
  next
    case (Cons c cs)
    then have sne: "s \<noteq> []" by simp
    show ?thesis
    proof (cases "\<forall>p\<in>set knownPatterns. \<forall>m n rest.
                    matchAt p s = Some (m, n, rest) \<longrightarrow> constants r n = None")
      case False
      then obtain q m n rest v where q: "q \<in> set knownPatterns"
        and m: "matchAt q s = Some (m, n, rest)" and bd: "constants r n = Some v" by auto
      note d = matchAt_SomeD [OF m]
      note i = match_isIdent [OF m]
      from q pat have q': "q \<in> set (patterns r)" by simp
      from d(2,3) have mne: "m \<noteq> []" by simp
      from setOffFrom_match(2) [OF "1.prems" q' m bd] have rr: "rest = [] \<or> neutral (hd rest)" .
      from "1.prems" d(1) have "setOffFrom r b (m @ rest)" by simp
      from setOffFrom_drop [OF this mne] have so: "setOffFrom r (neutral (last m)) rest" .
      from matchAt_shorter [OF m] have "length rest < length s" .
      from "1.IH" [rule_format, OF this so] obtain xs' where
        x1: "rest = render xs'" and x2: "separated r xs'" and x3: "rest = [] \<longrightarrow> xs' = []"
        and x5: "\<forall>q n. Hole q n \<in> set xs' \<longrightarrow> constants r n \<noteq> None"
        and x4: "rest \<noteq> [] \<and> (\<forall>p\<in>set knownPatterns. \<forall>m n rest'.
                        matchAt p rest = Some (m, n, rest') \<longrightarrow> constants r n = None)
                  \<longrightarrow> (\<exists>t ys. xs' = Text t # ys \<and> t \<noteq> [] \<and> hd t = hd rest)"
        by blast
      have sm: "seams (Hole q n # xs')"
      proof (cases "rest = []")
        case True
        with x3 show ?thesis by simp
      next
        case ne: False
        with rr have nr: "neutral (hd rest)" by simp
        with ne have "\<forall>p\<in>set knownPatterns. matchAt p rest = None"
          by (simp add: neutral_nomatch)
        with x4 ne obtain t ys where "xs' = Text t # ys" "t \<noteq> []" "hd t = hd rest" by auto
        with nr x2 show ?thesis by (simp add: separated_def)
      qed
      have e1: "s = render (Hole q n # xs')" using d(1) i(2) x1 by simp
      have e2: "separated r (Hole q n # xs')"
        using sm x2 q' i(1) by (simp add: separated_def)
      have e4: "\<forall>q' n'. Hole q' n' \<in> set (Hole q n # xs') \<longrightarrow> constants r n' \<noteq> None"
        using x5 bd by auto
      from e1 e2 sne e4 False show ?thesis by blast
    next
      case True
      from "1.prems" Cons have so: "setOffFrom r (neutral c) cs" by simp
      from Cons have "length cs < length s" by simp
      from "1.IH" [rule_format, OF this so] obtain xs' where
        x1: "cs = render xs'" and x2: "separated r xs'"
        and x5: "\<forall>q n. Hole q n \<in> set xs' \<longrightarrow> constants r n \<noteq> None" by blast
      show ?thesis
      proof (cases xs')
        case Nil
        with x1 have cs: "cs = []" by simp
        from True Cons cs single_noBound [OF pat _ empty, of c "[]"]
        have "noBoundPlaceholder r [c]" by simp
        with Cons cs show ?thesis
          by (intro exI [of _ "[Text [c]]"]) (simp add: separated_def)
      next
        case c2: (Cons x ys)
        show ?thesis
        proof (cases x)
          case (Text t)
          with x2 c2 have vt: "noBoundPlaceholder r t" and vy: "list_all (validItem r) ys"
            and sm: "seams (Text t # ys)" by (simp_all add: separated_def)
          from True Cons x1 c2 Text
          have "\<forall>p\<in>set knownPatterns. \<forall>m n rest.
                  matchAt p (c # t @ render ys) = Some (m, n, rest) \<longrightarrow> constants r n = None"
            by simp
          from single_noBound [OF pat this vt] have v: "noBoundPlaceholder r (c # t)" .
          have sm': "seams (Text (c # t) # ys)"
            using sm by (cases ys) auto
          from Cons x1 c2 Text have e1: "s = render (Text (c # t) # ys)" by simp
          from v vy sm' have e2: "separated r (Text (c # t) # ys)"
            by (simp add: separated_def)
          from x5 c2 Text
          have e4: "\<forall>q n. Hole q n \<in> set (Text (c # t) # ys) \<longrightarrow> constants r n \<noteq> None"
            by simp
          have e5: "\<exists>t' ys'. Text (c # t) # ys = Text t' # ys' \<and> t' \<noteq> [] \<and> hd t' = hd s"
            using Cons by simp
          from e1 e2 sne e4 e5 show ?thesis by blast
        next
          case (Hole q n)
          with x2 c2 have q': "q \<in> set (patterns r)" and n: "isIdent n"
            by (simp_all add: separated_def)
          from q' pat have q: "q \<in> set knownPatterns" by simp
          from x5 c2 Hole obtain v where bd: "constants r n = Some v" by auto
          from x1 c2 Hole have cs: "cs = placeholder q n @ render ys" by simp
          from matchAt_placeholder [OF n known_closer [OF q], of "render ys"] cs
          have m: "matchAt q cs = Some (placeholder q n, n, render ys)" by simp
          from setOffFrom_match(1) [OF so q' m bd] have nc: "neutral c" .
          from True Cons single_noBound [OF pat _ empty, of c cs]
          have v: "noBoundPlaceholder r [c]" by simp
          from Cons x1 c2 have e1: "s = render (Text [c] # xs')" by simp
          from v nc x2 c2 have e2: "separated r (Text [c] # xs')"
            by (simp add: separated_def)
          from x5 have e4: "\<forall>q n. Hole q n \<in> set (Text [c] # xs') \<longrightarrow> constants r n \<noteq> None"
            by simp
          have e5: "\<exists>t' ys'. Text [c] # xs' = Text t' # ys' \<and> t' \<noteq> [] \<and> hd t' = hd s"
            using Cons by simp
          from e1 e2 sne e4 e5 show ?thesis by blast
        qed
      qed
    qed
  qed
qed

lemma setOff_items:
  assumes "patterns r = knownPatterns" and "setOff r line"
  shows "\<exists>xs. line = render xs \<and> separated r xs"
proof -
  from assms(2) have "setOffFrom r True line" by (simp add: setOff_def)
  from setOffFrom_items [OF assms(1) this] obtain xs where "line = render xs" "separated r xs"
    by (elim exE conjE)
  then show ?thesis by blast
qed

lemma first_run_no_bound_placeholder:
  assumes "patterns r = knownPatterns" and "plainValues L r" and "setOff r line"
  shows "noBoundPlaceholder r (fst (processCommentLine L r line))"
proof -
  from setOff_items [OF assms(1,3)] obtain xs where "line = render xs" "separated r xs" by blast
  with first_run_output [OF assms(1,2), of xs] show ?thesis by simp
qed

lemma names_prefix:
  assumes p: "p \<in> set knownPatterns"
  shows "set (placeholderNames p a) \<subseteq> set (placeholderNames p (a @ b))"
proof (induction a)
  case Nil
  show ?case by simp
next
  case (Cons c cs)
  have sub: "set (placeholderNames p (cs @ b)) \<subseteq> set (placeholderNames p (c # cs @ b))"
    by (auto split: option.splits)
  show ?case
  proof (cases "matchAt p (c # cs)")
    case None
    with Cons sub show ?thesis by auto
  next
    case (Some x)
    then obtain m n rest where m: "matchAt p (c # cs) = Some (m, n, rest)" by (cases x) auto
    from matchAt_extend [OF p m, of b] have "matchAt p (c # cs @ b) = Some (m, n, rest @ b)"
      by simp
    with m Cons show ?thesis by auto
  qed
qed

lemma noBoundPlaceholder_part:
  assumes "patterns r = knownPatterns" and "noBoundPlaceholder r (a @ l @ b)"
  shows "noBoundPlaceholder r l"
  unfolding noBoundPlaceholder_def
proof (intro ballI)
  fix p name assume p: "p \<in> set (patterns r)" and n: "name \<in> set (placeholderNames p l)"
  from p assms(1) have k: "p \<in> set knownPatterns" by simp
  from n names_prefix [OF k, of l b] have "name \<in> set (placeholderNames p (l @ b))" by blast
  with placeholderNames_suffix [of p "l @ b" a]
  have "name \<in> set (placeholderNames p (a @ l @ b))" by blast
  with assms(2) p show "constants r name = None" by (simp add: noBoundPlaceholder_def)
qed

lemma Split_parts:
  "Split s c = l0 # ls \<Longrightarrow> (\<exists>b. s = l0 @ b) \<and> (\<forall>l\<in>set ls. \<exists>a b. s = a @ l @ b)"
proof (induction s arbitrary: l0 ls)
  case Nil
  then show ?case by simp
next
  case (Cons x xs)
  obtain k ks where sp: "Split xs c = k # ks"
    using Split_not_Nil [of xs c] by (cases "Split xs c") auto
  from Cons.IH [OF sp] obtain b0 where b0: "xs = k @ b0"
    and rest: "\<forall>l\<in>set ks. \<exists>a b. xs = a @ l @ b" by blast
  show ?case
  proof (cases "x = c")
    case True
    with Cons.prems sp have l0: "l0 = []" and ls: "ls = k # ks" by simp_all
    have "\<forall>l\<in>set ls. \<exists>a b. x # xs = a @ l @ b"
    proof
      fix l assume "l \<in> set ls"
      with ls have "l = k \<or> l \<in> set ks" by simp
      then have "\<exists>a b. xs = a @ l @ b"
      proof
        assume "l = k"
        with b0 have "xs = [] @ l @ b0" by simp
        then show ?thesis by blast
      next
        assume "l \<in> set ks"
        with rest show ?thesis by blast
      qed
      then obtain a b where "xs = a @ l @ b" by blast
      then have "x # xs = (x # a) @ l @ b" by simp
      then show "\<exists>a b. x # xs = a @ l @ b" by blast
    qed
    with l0 show ?thesis by simp
  next
    case False
    with Cons.prems sp have l0: "l0 = x # k" and ls: "ls = ks" by simp_all
    have "\<forall>l\<in>set ls. \<exists>a b. x # xs = a @ l @ b"
    proof
      fix l assume "l \<in> set ls"
      with ls rest obtain a b where "xs = a @ l @ b" by blast
      then have "x # xs = (x # a) @ l @ b" by simp
      then show "\<exists>a b. x # xs = a @ l @ b" by blast
    qed
    with l0 b0 show ?thesis by simp
  qed
qed

lemma Split_part:
  assumes "l \<in> set (Split s c)"
  shows "\<exists>a b. s = a @ l @ b"
proof -
  obtain l0 ls where sp: "Split s c = l0 # ls"
    using Split_not_Nil [of s c] by (cases "Split s c") auto
  from Split_parts [OF sp] obtain b0 where b0: "s = l0 @ b0"
    and rest: "\<forall>l\<in>set ls. \<exists>a b. s = a @ l @ b" by blast
  from assms sp have "l = l0 \<or> l \<in> set ls" by simp
  then show ?thesis
  proof
    assume "l = l0"
    with b0 have "s = [] @ l @ b0" by simp
    then show ?thesis by blast
  next
    assume "l \<in> set ls"
    with rest show ?thesis by blast
  qed
qed

lemma Split_append: "Split (a @ c # b) c = Split a c @ Split b c"
proof (induction a)
  case Nil
  show ?case by simp
next
  case (Cons x a)
  obtain k ks where sp: "Split a c = k # ks"
    using Split_not_Nil [of a c] by (cases "Split a c") auto
  with Cons show ?case by simp
qed

lemma Split_Join_elems:
  "ls \<noteq> [] \<Longrightarrow> l \<in> set (Split (Join ls [c]) c) \<Longrightarrow> \<exists>x\<in>set ls. l \<in> set (Split x c)"
proof (induction ls)
  case Nil
  then show ?case by simp
next
  case (Cons x xs)
  show ?case
  proof (cases xs)
    case Nil
    with Cons.prems show ?thesis by simp
  next
    case c2: (Cons y ys)
    then have "Join (x # xs) [c] = x @ c # Join xs [c]" by simp
    with Cons.prems(2) have "l \<in> set (Split x c) \<or> l \<in> set (Split (Join xs [c]) c)"
      by (simp add: Split_append)
    then show ?thesis
    proof
      assume "l \<in> set (Split x c)"
      then show ?thesis by simp
    next
      assume "l \<in> set (Split (Join xs [c]) c)"
      with Cons.IH c2 show ?thesis by simp
    qed
  qed
qed

text \<open>
  Claim C6, as amended.  Let the table have plain values (the text put in for a value
  holds no placeholder of a bound name) and let, in every line of the file with \<^verbatim>\<open>//\<close>
  in it, the placeholders of bound names be set off (directly before and directly after
  each stands an end of the line or a byte that no placeholder contains).  Then
  \<^verbatim>\<open>processCommentLine\<close> applied to its own output on such a line returns the same
  text, and a second run on the file the first run left ends without an error, writes
  nothing and leaves every file as it is.
\<close>

theorem second_run_changes_nothing:
  assumes "patterns r = knownPatterns"
    and "plainValues L r"
    and "files w filename = Some content"
    and "\<forall>line\<in>set (Split content newline). Contains line ''//'' \<longrightarrow> setOff r line"
    and "replaceVariablesInComments L r w filename = Inr w1"
  shows "(\<forall>line. setOff r line \<longrightarrow>
            fst (processCommentLine L r (fst (processCommentLine L r line)))
              = fst (processCommentLine L r line))
       \<and> (\<exists>w2. replaceVariablesInComments L r w1 filename = Inr w2
             \<and> files w2 = files w1 \<and> written w2 = written w1)"
proof
  show "\<forall>line. setOff r line \<longrightarrow>
            fst (processCommentLine L r (fst (processCommentLine L r line)))
              = fst (processCommentLine L r line)"
  proof (intro allI impI)
    fix line assume "setOff r line"
    with assms(1,2) have "noBoundPlaceholder r (fst (processCommentLine L r line))"
      by (rule first_run_no_bound_placeholder)
    then show "fst (processCommentLine L r (fst (processCommentLine L r line)))
              = fst (processCommentLine L r line)"
      by (rule processCommentLine_unbound)
  qed
next
  let ?lines0 = "Split content newline"
  let ?lines1 = "fst (linesLoop L r 0 ?lines0 False [])"
  let ?content1 = "Join ?lines1 [newline]"
  from replaceVariablesInComments_files(1) [OF assms(5)] assms(3)
  have f1: "files w1 filename = Some ?content1" by simp
  have len: "length ?lines1 = length ?lines0" by (rule linesLoop_length)
  with Split_not_Nil [of content newline] have ne: "?lines1 \<noteq> []" by auto
  have "\<forall>l\<in>set (Split ?content1 newline). Contains l ''//'' \<longrightarrow> noBoundPlaceholder r l"
  proof (intro ballI impI)
    fix l assume l: "l \<in> set (Split ?content1 newline)" and c: "Contains l ''//''"
    from Split_Join_elems [OF ne l] obtain x where x: "x \<in> set ?lines1" "l \<in> set (Split x newline)"
      by blast
    from x(1) len obtain j where j: "j < length ?lines0" "x = ?lines1 ! j"
      by (auto simp: in_set_conv_nth)
    show "noBoundPlaceholder r l"
    proof (cases "Contains (?lines0 ! j) ''//''")
      case False
      with j have "x = ?lines0 ! j" by (simp add: linesLoop_nth)
      with j(1) have "x \<in> set ?lines0" by simp
      then have "newline \<notin> set x" by (rule Split_elems)
      then have "Split x newline = [x]" by (rule Split_no_sep)
      with x(2) have "l = x" by simp
      with c False \<open>x = ?lines0 ! j\<close> show ?thesis by simp
    next
      case True
      with j have xe: "x = fst (processCommentLine L r (?lines0 ! j))" by (simp add: linesLoop_nth)
      from j(1) True assms(4) have "setOff r (?lines0 ! j)" by simp
      with assms(1,2) have "noBoundPlaceholder r (fst (processCommentLine L r (?lines0 ! j)))"
        by (rule first_run_no_bound_placeholder)
      with xe have nb: "noBoundPlaceholder r x" by simp
      from Split_part [OF x(2)] obtain a b where "x = a @ l @ b" by blast
      with nb have "noBoundPlaceholder r (a @ l @ b)" by simp
      with assms(1) show ?thesis by (rule noBoundPlaceholder_part)
    qed
  qed
  from rewrite_without_bound_placeholder(1) [OF f1 this, of L]
  show "\<exists>w2. replaceVariablesInComments L r w1 filename = Inr w2
             \<and> files w2 = files w1 \<and> written w2 = written w1"
    by simp
qed

text \<open>
  \<^verbatim>\<open>Status\<close> is bound to \<open>200\<close>: the first run rewrites the line, the second changes
  nothing.
\<close>

theorem second_run_changes_nothing_witness:
  "fst (processCommentLine noLib (NewSwaggerVariableReplacer\<lparr>constants := [''Status'' \<mapsto> IntVal 200]\<rparr>)
          ''// @Success 200 {object} {{Other}}'') = ''// @Success 200 {object} {{Other}}''
   \<and> (\<exists>w2. replaceVariablesInComments noLib
              (NewSwaggerVariableReplacer\<lparr>constants := [''Status'' \<mapsto> IntVal 200]\<rparr>)
              ((oneFile ''a.go'' ''// @Success {{Status}} {object} {{Other}}'')
                 \<lparr>files := [''a.go'' \<mapsto> ''// @Success 200 {object} {{Other}}''],
                  written := [(''a.go'', ''// @Success 200 {object} {{Other}}'')],
                  stdout := [warning ''Other'',
                             ''Replaced: // @Success {{Status}} {object} {{Other}}'' @ [newline],
                             ''    With: // @Success 200 {object} {{Other}}'' @ [newline]]\<rparr>)
              ''a.go'' = Inr w2
          \<and> files w2 = [''a.go'' \<mapsto> ''// @Success 200 {object} {{Other}}'']
          \<and> written w2 = [(''a.go'', ''// @Success 200 {object} {{Other}}'')])"
proof -
  let ?r = "NewSwaggerVariableReplacer\<lparr>constants := [''Status'' \<mapsto> IntVal 200]\<rparr>
              :: unit SwaggerVariableReplacer"
  let ?line = "''// @Success {{Status}} {object} {{Other}}''"
  let ?w = "oneFile ''a.go'' ?line"
  let ?w1 = "?w\<lparr>files := [''a.go'' \<mapsto> ''// @Success 200 {object} {{Other}}''],
          written := [(''a.go'', ''// @Success 200 {object} {{Other}}'')],
          stdout := [warning ''Other'', ''Replaced: // @Success {{Status}} {object} {{Other}}'' @ [newline],
                     ''    With: // @Success 200 {object} {{Other}}'' @ [newline]]\<rparr>"
  have 1: "patterns ?r = knownPatterns"
    by (simp add: NewSwaggerVariableReplacer_def knownPatterns_def)
  have v: "noBoundPlaceholder ?r (Sprintf_v noLib (IntVal 200))" by code_simp
  have 2: "plainValues noLib ?r"
    using v by (simp add: plainValues_def NewSwaggerVariableReplacer_def)
  have 3: "files ?w ''a.go'' = Some ?line" by (simp add: oneFile_def)
  have so: "setOff ?r ?line" by code_simp
  have 4: "\<forall>line\<in>set (Split ?line newline). Contains line ''//'' \<longrightarrow> setOff ?r line"
    using so by simp
  have p: "processCommentLine noLib ?r ?line
             = (''// @Success 200 {object} {{Other}}'', [warning ''Other''])"
    by code_simp
  have ll: "linesLoop noLib ?r 0 [?line] False []
        = ([''// @Success 200 {object} {{Other}}''], True,
           [warning ''Other'', ''Replaced: // @Success {{Status}} {object} {{Other}}'' @ [newline],
            ''    With: // @Success 200 {object} {{Other}}'' @ [newline]])"
    by code_simp
  have 5: "replaceVariablesInComments noLib ?r ?w ''a.go'' = Inr ?w1"
    using ll by (simp add: replaceVariablesInComments_def ReadFile_def WriteFile_def oneFile_def)
  note T = second_run_changes_nothing [OF 1 2 3 4 5]
  from T so have a: "fst (processCommentLine noLib ?r (fst (processCommentLine noLib ?r ?line)))
              = fst (processCommentLine noLib ?r ?line)"
    by blast
  from T have b: "\<exists>w2. replaceVariablesInComments noLib ?r ?w1 ''a.go'' = Inr w2
             \<and> files w2 = files ?w1 \<and> written w2 = written ?w1"
    by blast
  from a b show ?thesis unfolding p by simp
qed

text \<open>
  Claim C6 as stated fails when the text put in is itself a placeholder: with
  \<^verbatim>\<open>A = "{{B}}"\<close> and \<^verbatim>\<open>B = "x"\<close>, the line \<^verbatim>\<open>// {{A}}\<close> becomes \<^verbatim>\<open>// {{B}}\<close> in the
  first run and \<^verbatim>\<open>// x\<close> in the second.  It also fails when the text put in completes a
  placeholder with what stands around it: with \<^verbatim>\<open>A = 1\<close> and \<^verbatim>\<open>X1 = "v"\<close>, the line
  \<^verbatim>\<open>// {{X{{A}}}}\<close> becomes \<^verbatim>\<open>// {{X1}}\<close> in the first run and \<^verbatim>\<open>// v\<close> in the second.
\<close>

theorem placeholder_in_value_counterexample:
  "fst (processCommentLine noLib
          (NewSwaggerVariableReplacer
             \<lparr>constants := [''A'' \<mapsto> StringVal ''{{B}}'', ''B'' \<mapsto> StringVal ''x'']\<rparr>)
          (fst (processCommentLine noLib
                  (NewSwaggerVariableReplacer
                     \<lparr>constants := [''A'' \<mapsto> StringVal ''{{B}}'', ''B'' \<mapsto> StringVal ''x'']\<rparr>)
                  ''// {{A}}'')))
   \<noteq> fst (processCommentLine noLib
            (NewSwaggerVariableReplacer
               \<lparr>constants := [''A'' \<mapsto> StringVal ''{{B}}'', ''B'' \<mapsto> StringVal ''x'']\<rparr>)
            ''// {{A}}'')
   \<and> fst (processCommentLine noLib
            (NewSwaggerVariableReplacer
               \<lparr>constants := [''A'' \<mapsto> IntVal 1, ''X1'' \<mapsto> StringVal ''v'']\<rparr>)
            ''// {{X{{A}}}}'') = ''// {{X1}}''
   \<and> fst (processCommentLine noLib
            (NewSwaggerVariableReplacer
               \<lparr>constants := [''A'' \<mapsto> IntVal 1, ''X1'' \<mapsto> StringVal ''v'']\<rparr>)
            ''// {{X1}}'') = ''// v''"
  by code_simp


end
